theory Spec2Isabelle
  imports Main "HOL-Library.Multiset" "HOL-Library.Char_ord" "HOL-Library.List_Lexorder"
    "HOL-Library.Product_Lexorder"
begin

section \<open>Python strings\<close>

text \<open>
  A Python \<open>str\<close> is modelled as a \<open>string\<close>, one \<open>char\<close> per code point (code points
  0 to 255). \<open>str.strip()\<close> without argument removes the characters for which
  \<open>str.isspace\<close> holds; below 256 these are 0x09 to 0x0D, 0x1C to 0x20, 0x85 and 0xA0.
\<close>

definition is_space :: "char \<Rightarrow> bool" where
  "is_space c =
     (let n = (of_char c :: nat)
      in (9 \<le> n \<and> n \<le> 13) \<or> (28 \<le> n \<and> n \<le> 32) \<or> n = 133 \<or> n = 160)"

definition strip :: "string \<Rightarrow> string" where
  "strip s = rev (dropWhile is_space (rev (dropWhile is_space s)))"

text \<open>\<open>s.split(sep)\<close> for a one-character separator: never an empty result list.\<close>

fun split :: "char \<Rightarrow> string \<Rightarrow> string list" where
  "split sep [] = [[]]"
| "split sep (c # cs) =
     (if c = sep then [] # split sep cs
      else (case split sep cs of
              [] \<Rightarrow> [[c]]
            | p # ps \<Rightarrow> (c # p) # ps))"

text \<open>\<open>sep.join(parts)\<close>.\<close>

fun join :: "string \<Rightarrow> string list \<Rightarrow> string" where
  "join sep [] = []"
| "join sep [p] = p"
| "join sep (p # q # ps) = p @ sep @ join sep (q # ps)"

section \<open>Parsing a product text into code and name\<close>

text \<open>
  \<^verbatim>\<open>
  def _parse_code_and_name(text):
      parts = [p.strip() for p in text.split("/") if p.strip()]
      if not parts:
          return "", text.strip()
      code = parts[0]
      name = " / ".join(parts[1:]) if len(parts) > 1 else text.strip()
      return code, name
  \<close>
\<close>

definition parse_parts :: "string \<Rightarrow> string list" where
  "parse_parts text = map strip (filter (\<lambda>p. strip p \<noteq> []) (split CHR ''/'' text))"

definition parse_code_and_name :: "string \<Rightarrow> string \<times> string" where
  "parse_code_and_name text =
     (let parts = parse_parts text
      in if parts = [] then ([], strip text)
         else (let code = hd parts;
                   name = (if length parts > 1 then join '' / '' (tl parts) else strip text)
               in (code, name)))"

section \<open>The search terms\<close>

text \<open>
  \<open>itertools.product(alphabet, repeat=n)\<close>: the tuples over \<open>n\<close> copies of the pool, built
  pool by pool as \<open>[x + [y] for x in result for y in pool]\<close>, so the last position varies
  fastest.
\<close>

definition ascii_lowercase :: string where
  "ascii_lowercase = ''abcdefghijklmnopqrstuvwxyz''"

definition alphabet :: string where
  "alphabet = ''0123456789'' @ ascii_lowercase"

fun product_repeat :: "'a list \<Rightarrow> nat \<Rightarrow> 'a list list" where
  "product_repeat pool 0 = [[]]"
| "product_repeat pool (Suc n) =
     concat (map (\<lambda>x. map (\<lambda>y. x @ [y]) pool) (product_repeat pool n))"

definition terms :: "string list" where
  "terms = product_repeat alphabet 2"

section \<open>HTTP sessions\<close>

text \<open>
  The remote backend is a state machine: a request in a server state yields the outcome of
  \<open>session.post(url, data, timeout=15)\<close> and the next server state. The outcome is
  either an exception of the \<open>requests\<close> library (connection error, timeout) or a
  response. The body of a response is kept in two views, the text and what \<open>resp.json()\<close>
  gives for it.
\<close>

datatype jvalue =
    JStr string
  | JNull
  | JBool bool
  | JInt int
  | JRendered string  \<comment> \<open>a float, array or object, carried as the text \<open>str()\<close> yields\<close>

datatype item =
    Dict "string \<rightharpoonup> jvalue"
  | NotDict  \<comment> \<open>any JSON value without a \<open>get\<close> method\<close>

datatype json_body =
    NotJson  \<comment> \<open>\<open>resp.json()\<close> raises\<close>
  | JsonList "item list"
  | JsonOther  \<comment> \<open>valid JSON that is not an array\<close>

record response =
  status_code :: nat
  body_text :: string
  body_json :: json_body

datatype post_result = Raised | Resp response

type_synonym request = "string \<times> (string \<times> string) list"

type_synonym 'w server = "'w \<Rightarrow> request \<Rightarrow> post_result \<times> 'w"

text \<open>
  A session holds the server state it talks to and the exchanges made through it so far,
  oldest first.
\<close>

record 'w session =
  world :: 'w
  exchanges :: "(request \<times> post_result) list"

definition post ::
  "'w server \<Rightarrow> 'w session \<Rightarrow> string \<Rightarrow> (string \<times> string) list \<Rightarrow> post_result \<times> 'w session" where
  "post srv s url form =
     (let (r, w') = srv (world s) (url, form)
      in (r, \<lparr>world = w', exchanges = exchanges s @ [((url, form), r)]\<rparr>))"

text \<open>\<open>resp.raise_for_status()\<close> raises for the statuses 400 to 599.\<close>

definition http_error :: "nat \<Rightarrow> bool" where
  "http_error st = (400 \<le> st \<and> st < 600)"

definition LOGIN_URL :: string where
  "LOGIN_URL = ''http://apps.islandsunindonesia.com:81/islandsun/index.php/login''"

definition PRODUCT_URL :: string where
  "PRODUCT_URL =
     ''http://apps.islandsunindonesia.com:81/islandsun/samplerequest/getAjaxproduct/null''"

definition PRICE_URL :: string where
  "PRICE_URL =
     ''http://apps.islandsunindonesia.com:81/islandsun/samplerequest/getMarketingPrice''"

section \<open>Errors\<close>

datatype error =
    SystemExit nat
  | AttributeError
  | FileExistsError
  | FileNotFoundError
  | NotADirectoryError
  | IsADirectoryError

section \<open>Login\<close>

text \<open>
  \<^verbatim>\<open>
  def login():
      username = os.getenv("ISLANDSUN_USERNAME")
      password = os.getenv("ISLANDSUN_PASSWORD")
      if not username or not password:
          sys.exit(2)
      s = requests.Session()
      try:
          s.post(LOGIN_URL, data={"user": username}, timeout=15)
          resp = s.post(LOGIN_URL, data={"user": username, "password": password}, timeout=15)
          resp.raise_for_status()
          return s
      except Exception as e:
          sys.exit(3)
  \<close>
  The environment is a map from variable names to values; the fresh session is the
  argument \<open>s\<close>. \<open>not v\<close> holds for \<open>None\<close> and for the empty string.
\<close>

definition login ::
  "(string \<rightharpoonup> string) \<Rightarrow> 'w server \<Rightarrow> 'w session \<Rightarrow> (error + unit) \<times> 'w session" where
  "login env srv s =
     (case (env ''ISLANDSUN_USERNAME'', env ''ISLANDSUN_PASSWORD'') of
        (Some username, Some password) \<Rightarrow>
          if username = [] \<or> password = [] then (Inl (SystemExit 2), s)
          else (case post srv s LOGIN_URL [(''user'', username)] of
                  (Raised, s1) \<Rightarrow> (Inl (SystemExit 3), s1)
                | (Resp _, s1) \<Rightarrow>
                    (case post srv s1 LOGIN_URL [(''user'', username), (''password'', password)] of
                       (Raised, s2) \<Rightarrow> (Inl (SystemExit 3), s2)
                     | (Resp resp, s2) \<Rightarrow>
                         if http_error (status_code resp) then (Inl (SystemExit 3), s2)
                         else (Inr (), s2)))
      | _ \<Rightarrow> (Inl (SystemExit 2), s))"

section \<open>Collecting the catalog\<close>

text \<open>
  \<^verbatim>\<open>
  def fetch_products_for_term(session, term):
      try:
          resp = session.post(PRODUCT_URL, data={"param": term}, timeout=15)
          resp.raise_for_status()
          data = resp.json()
          return data if isinstance(data, list) else []
      except Exception:
          return []
  \<close>
\<close>

definition fetch_products_for_term ::
  "'w server \<Rightarrow> 'w session \<Rightarrow> string \<Rightarrow> item list \<times> 'w session" where
  "fetch_products_for_term srv s term =
     (case post srv s PRODUCT_URL [(''param'', term)] of
        (Raised, s') \<Rightarrow> ([], s')
      | (Resp resp, s') \<Rightarrow>
          (if http_error (status_code resp) then []
           else (case body_json resp of
                   NotJson \<Rightarrow> []
                 | JsonList data \<Rightarrow> data
                 | JsonOther \<Rightarrow> []),
           s'))"

text \<open>\<open>str(v)\<close> for a JSON value.\<close>

definition digit_char :: "nat \<Rightarrow> char" where
  "digit_char d = ''0123456789'' ! d"

fun nat_digits :: "nat \<Rightarrow> string" where
  "nat_digits n =
     (if n < 10 then [digit_char n] else nat_digits (n div 10) @ [digit_char (n mod 10)])"

declare nat_digits.simps [simp del]

definition py_str :: "jvalue \<Rightarrow> string" where
  "py_str v =
     (case v of
        JStr s \<Rightarrow> s
      | JNull \<Rightarrow> ''None''
      | JBool b \<Rightarrow> (if b then ''True'' else ''False'')
      | JInt i \<Rightarrow> (if i < 0 then CHR ''-'' # nat_digits (nat (- i)) else nat_digits (nat i))
      | JRendered s \<Rightarrow> s)"

text \<open>\<open>d.get(k, default)\<close>.\<close>

definition dict_get :: "('k \<rightharpoonup> 'v) \<Rightarrow> 'k \<Rightarrow> 'v \<Rightarrow> 'v" where
  "dict_get d k dflt = (case d k of None \<Rightarrow> dflt | Some v \<Rightarrow> v)"

text \<open>
  The catalog is a dict in insertion order from the key \<open>(id, text)\<close> to the entry with
  these two fields: an association list, new keys appended.
\<close>

record entry =
  entry_id :: string
  entry_text :: string

type_synonym key = "string \<times> string"

type_synonym catalog = "(key \<times> entry) list"

definition item_key :: "(string \<rightharpoonup> jvalue) \<Rightarrow> key" where
  "item_key d =
     (strip (py_str (dict_get d ''id'' (JStr []))),
      strip (py_str (dict_get d ''text'' (JStr []))))"

text \<open>
  \<^verbatim>\<open>
  for item in items:
      key = (str(item.get("id", "")).strip(), str(item.get("text", "")).strip())
      if key not in catalog and key[0] and key[1]:
          catalog[key] = {"id": key[0], "text": key[1]}
  \<close>
  An item that is not a dict has no \<open>get\<close>: the loop raises AttributeError.
\<close>

fun merge_items :: "catalog \<Rightarrow> item list \<Rightarrow> error + catalog" where
  "merge_items cat [] = Inr cat"
| "merge_items cat (NotDict # items) = Inl AttributeError"
| "merge_items cat (Dict d # items) =
     (let key = item_key d
      in merge_items
           (if key \<notin> set (map fst cat) \<and> fst key \<noteq> [] \<and> snd key \<noteq> []
            then cat @ [(key, \<lparr>entry_id = fst key, entry_text = snd key\<rparr>)]
            else cat)
           items)"

text \<open>
  The sequential collector: one fetch and one merge per term, in the order of \<open>terms\<close>.
  \<^verbatim>\<open>
  catalog = {}
  for idx, term in enumerate(terms, start=1):
      items = fetch_products_for_term(session, term)
      for item in items: ...
  return list(catalog.values())
  \<close>
\<close>

fun collect_loop ::
  "'w server \<Rightarrow> string list \<Rightarrow> catalog \<Rightarrow> 'w session \<Rightarrow> (error + catalog) \<times> 'w session" where
  "collect_loop srv [] cat s = (Inr cat, s)"
| "collect_loop srv (term # ts) cat s =
     (let (items, s1) = fetch_products_for_term srv s term
      in case merge_items cat items of
           Inl e \<Rightarrow> (Inl e, s1)
         | Inr cat' \<Rightarrow> collect_loop srv ts cat' s1)"

definition collect_full_catalog ::
  "'w server \<Rightarrow> 'w session \<Rightarrow> (error + entry list) \<times> 'w session" where
  "collect_full_catalog srv s =
     (case collect_loop srv terms [] s of
        (Inl e, s') \<Rightarrow> (Inl e, s')
      | (Inr catalog, s') \<Rightarrow> (Inr (map snd catalog), s'))"

section \<open>The thread pool\<close>

text \<open>
  The second version of the program hands its blocking fetches to a
  \<open>ThreadPoolExecutor\<close> and consumes the futures with \<open>as_completed\<close>. A pool is
  modelled by its schedule: the order in which the submitted tasks reach the server and
  the order in which \<open>as_completed\<close> yields their futures; both are functions of the
  list of submitted tasks. Leaving the \<open>with\<close> block waits for every submitted task, also
  when the consuming loop raises, so every task runs; what the consuming loop computes
  has no effect on the tasks, so the model runs the tasks first and consumes afterwards.
\<close>

record pool =
  run_order :: "string list \<Rightarrow> string list"
  done_order :: "string list \<Rightarrow> string list"

text \<open>A schedule is fair when it runs and completes exactly the submitted tasks.\<close>

definition fair :: "pool \<Rightarrow> bool" where
  "fair p = (\<forall>tasks. mset (run_order p tasks) = mset tasks \<and> mset (done_order p tasks) = mset tasks)"

fun run_tasks :: "('s \<Rightarrow> 'a \<Rightarrow> 'r \<times> 's) \<Rightarrow> 'a list \<Rightarrow> 's \<Rightarrow> ('a \<times> 'r) list \<times> 's" where
  "run_tasks f [] s = ([], s)"
| "run_tasks f (a # as) s =
     (let (r, s1) = f s a;
          (rs, s2) = run_tasks f as s1
      in ((a, r) # rs, s2))"

definition as_completed :: "('a \<times> 'r) list \<Rightarrow> 'a list \<Rightarrow> ('a \<times> 'r) list" where
  "as_completed results order =
     List.map_filter (\<lambda>a. map_option (Pair a) (map_of results a)) order"

definition pool_map ::
  "pool \<Rightarrow> ('s \<Rightarrow> string \<Rightarrow> 'r \<times> 's) \<Rightarrow> string list \<Rightarrow> 's \<Rightarrow> (string \<times> 'r) list \<times> 's" where
  "pool_map p f tasks s =
     (let (results, s') = run_tasks f (run_order p tasks) s
      in (as_completed results (done_order p tasks), s'))"

section \<open>Collecting the catalog with the pool\<close>

text \<open>
  \<^verbatim>\<open>
  with ThreadPoolExecutor() as executor:
      future_to_term = {executor.submit(_fetch_products_for_term_blocking, session, term): term
                        for term in terms}
      for future in as_completed(future_to_term):
          items = future.result()
          for item in items: ...
  return list(catalog.values())
  \<close>
  \<open>_fetch_products_for_term_blocking\<close> has the body of \<open>fetch_products_for_term\<close>.
\<close>

definition fetch_products_for_term_blocking ::
  "'w server \<Rightarrow> 'w session \<Rightarrow> string \<Rightarrow> item list \<times> 'w session" where
  "fetch_products_for_term_blocking = fetch_products_for_term"

fun merge_terms :: "catalog \<Rightarrow> item list list \<Rightarrow> error + catalog" where
  "merge_terms cat [] = Inr cat"
| "merge_terms cat (items # rest) =
     (case merge_items cat items of
        Inl e \<Rightarrow> Inl e
      | Inr cat' \<Rightarrow> merge_terms cat' rest)"

definition collect_full_catalog_pool ::
  "pool \<Rightarrow> 'w server \<Rightarrow> 'w session \<Rightarrow> (error + entry list) \<times> 'w session" where
  "collect_full_catalog_pool p srv s =
     (let (completed, s') = pool_map p (fetch_products_for_term_blocking srv) terms s
      in case merge_terms [] (map snd completed) of
           Inl e \<Rightarrow> (Inl e, s')
         | Inr catalog \<Rightarrow> (Inr (map snd catalog), s'))"

section \<open>Prices\<close>

text \<open>
  \<^verbatim>\<open>
  def fetch_price(session, pid):
      try:
          resp = session.post(PRICE_URL, data={"id": str(pid)}, timeout=15)
          if resp.status_code == 200:
              price = resp.text.strip()
              return price if price else ""
      except Exception:
          return ""
      return ""
  \<close>
  A product id of the catalog is a string, so \<open>str(pid)\<close> is \<open>pid\<close>.
\<close>

definition fetch_price :: "'w server \<Rightarrow> 'w session \<Rightarrow> string \<Rightarrow> string \<times> 'w session" where
  "fetch_price srv s pid =
     (case post srv s PRICE_URL [(''id'', pid)] of
        (Raised, s') \<Rightarrow> ([], s')
      | (Resp resp, s') \<Rightarrow>
          (if status_code resp = 200
           then (let price = strip (body_text resp) in if price \<noteq> [] then price else [])
           else [],
           s'))"

definition fetch_price_blocking :: "'w server \<Rightarrow> 'w session \<Rightarrow> string \<Rightarrow> string \<times> 'w session" where
  "fetch_price_blocking = fetch_price"

record product =
  product_name :: string
  product_code :: string
  marketing_price :: string

text \<open>
  The sequential enricher: the cache \<open>id_to_price\<close> is filled on the first entry of
  each id.
  \<^verbatim>\<open>
  for idx, product in enumerate(catalog, start=1):
      pid = product["id"]
      text = product["text"]
      if pid not in id_to_price:
          id_to_price[pid] = fetch_price(session, pid)
      price = id_to_price[pid]
      code, name = _parse_code_and_name(text)
      enriched.append({"product_name": name, "product_code": code, "marketing_price": price})
  \<close>
\<close>

fun enrich_loop ::
  "'w server \<Rightarrow> entry list \<Rightarrow> (string \<rightharpoonup> string) \<Rightarrow> product list \<Rightarrow> 'w session
   \<Rightarrow> (product list \<times> (string \<rightharpoonup> string)) \<times> 'w session" where
  "enrich_loop srv [] id_to_price enriched s = ((enriched, id_to_price), s)"
| "enrich_loop srv (product # rest) id_to_price enriched s =
     (let pid = entry_id product;
          text = entry_text product;
          (price, id_to_price1, s1) =
            (case id_to_price pid of
               None \<Rightarrow> (let (fetched, s') = fetch_price srv s pid
                        in (fetched, id_to_price(pid \<mapsto> fetched), s'))
             | Some cached \<Rightarrow> (cached, id_to_price, s));
          (code, name) = parse_code_and_name text
      in enrich_loop srv rest id_to_price1
           (enriched @ [\<lparr>product_name = name, product_code = code, marketing_price = price\<rparr>])
           s1)"

definition enrich_with_prices ::
  "'w server \<Rightarrow> 'w session \<Rightarrow> entry list \<Rightarrow> product list \<times> 'w session" where
  "enrich_with_prices srv s catalog =
     (let ((enriched, id_to_price), s') = enrich_loop srv catalog Map.empty [] s
      in (enriched, s'))"

text \<open>
  The enricher with the pool: the distinct ids first, one fetch per id through the pool,
  then the records in catalog order.
  \<^verbatim>\<open>
  unique_ids = []
  for product in catalog:
      pid = product["id"]
      if pid not in id_to_price:
          id_to_price[pid] = ""  # placeholder
          unique_ids.append(pid)
  with ThreadPoolExecutor() as executor:
      future_to_pid = {executor.submit(_fetch_price_blocking, session, pid): pid
                       for pid in unique_ids}
      for future in as_completed(future_to_pid):
          pid = future_to_pid[future]
          id_to_price[pid] = future.result() or ""
  for idx, product in enumerate(catalog, start=1):
      pid = product["id"]
      text = product["text"]
      price = id_to_price.get(pid, "")
      code, name = _parse_code_and_name(text)
      enriched.append({"product_name": name, "product_code": code, "marketing_price": price})
  \<close>
\<close>

fun unique_ids_loop ::
  "entry list \<Rightarrow> (string \<rightharpoonup> string) \<Rightarrow> string list \<Rightarrow> (string \<rightharpoonup> string) \<times> string list" where
  "unique_ids_loop [] id_to_price unique_ids = (id_to_price, unique_ids)"
| "unique_ids_loop (product # rest) id_to_price unique_ids =
     (let pid = entry_id product
      in if id_to_price pid = None
         then unique_ids_loop rest (id_to_price(pid \<mapsto> [])) (unique_ids @ [pid])
         else unique_ids_loop rest id_to_price unique_ids)"

fun store_prices :: "(string \<times> string) list \<Rightarrow> (string \<rightharpoonup> string) \<Rightarrow> (string \<rightharpoonup> string)" where
  "store_prices [] id_to_price = id_to_price"
| "store_prices ((pid, result) # rest) id_to_price =
     store_prices rest (id_to_price(pid \<mapsto> (if result \<noteq> [] then result else [])))"

fun build_enriched :: "entry list \<Rightarrow> (string \<rightharpoonup> string) \<Rightarrow> product list \<Rightarrow> product list" where
  "build_enriched [] id_to_price enriched = enriched"
| "build_enriched (product # rest) id_to_price enriched =
     (let pid = entry_id product;
          text = entry_text product;
          price = dict_get id_to_price pid [];
          (code, name) = parse_code_and_name text
      in build_enriched rest id_to_price
           (enriched @ [\<lparr>product_name = name, product_code = code, marketing_price = price\<rparr>]))"

definition enrich_pool ::
  "pool \<Rightarrow> 'w server \<Rightarrow> 'w session \<Rightarrow> entry list
   \<Rightarrow> (product list \<times> (string \<rightharpoonup> string)) \<times> 'w session" where
  "enrich_pool p srv s catalog =
     (let (placeholders, unique_ids) = unique_ids_loop catalog Map.empty [];
          (completed, s') = pool_map p (fetch_price_blocking srv) unique_ids s;
          id_to_price = store_prices completed placeholders
      in ((build_enriched catalog id_to_price [], id_to_price), s'))"

definition enrich_with_prices_pool ::
  "pool \<Rightarrow> 'w server \<Rightarrow> 'w session \<Rightarrow> entry list \<Rightarrow> product list \<times> 'w session" where
  "enrich_with_prices_pool p srv s catalog =
     (let ((enriched, id_to_price), s') = enrich_pool p srv s catalog
      in (enriched, s'))"

section \<open>Persistence\<close>

text \<open>
  The file system below the working directory: a path is the list of its components
  relative to the working directory (the empty path), a node is a directory or a file
  with its content. The content is kept as the value written: the list handed to
  \<open>json.dump(_, f, ensure_ascii=False, indent=2)\<close>, or the text handed to \<open>f.write\<close>.
  Access rights are not modelled.
\<close>

type_synonym path = "string list"

datatype document = JsonDump "product list" | PlainText string

datatype node = Dir | File document

type_synonym fs = "path \<rightharpoonup> node"

definition lookup :: "fs \<Rightarrow> path \<Rightarrow> node option" where
  "lookup files p = (if p = [] then Some Dir else files p)"

text \<open>
  \<open>with open(path, "w") as f: ...\<close> creates or truncates the file and writes the
  content; the parent must be a directory and the path must not be one.
\<close>

definition open_w :: "fs \<Rightarrow> path \<Rightarrow> document \<Rightarrow> error + fs" where
  "open_w files p doc =
     (case lookup files (butlast p) of
        None \<Rightarrow> Inl FileNotFoundError
      | Some (File _) \<Rightarrow> Inl NotADirectoryError
      | Some Dir \<Rightarrow>
          (case lookup files p of
             Some Dir \<Rightarrow> Inl IsADirectoryError
           | _ \<Rightarrow> Inr (files(p \<mapsto> File doc))))"

text \<open>\<open>os.makedirs(name, exist_ok=True)\<close> for a name of one component.\<close>

definition makedirs :: "fs \<Rightarrow> string \<Rightarrow> error + fs" where
  "makedirs files name =
     (case lookup files [name] of
        None \<Rightarrow> Inr (files([name] \<mapsto> Dir))
      | Some Dir \<Rightarrow> Inr files
      | Some (File _) \<Rightarrow> Inl FileExistsError)"

text \<open>
  \<open>sorted(products, key=lambda x: (x["product_name"], x["product_code"]))\<close>: a stable
  sort by the pair of strings; pairs and strings compare lexicographically, characters by
  code point.
\<close>

definition sort_key_of :: "product \<Rightarrow> string \<times> string" where
  "sort_key_of x = (product_name x, product_code x)"

definition sorted_products :: "product list \<Rightarrow> product list" where
  "sorted_products products = sort_key sort_key_of products"

text \<open>
  The sequential version writes into the working directory.
  \<^verbatim>\<open>
  def save_json(products):
      products_sorted = sorted(products, key=lambda x: (x["product_name"], x["product_code"]))
      with open("products.json", "w", encoding="utf-8") as f:
          json.dump(products_sorted, f, ensure_ascii=False, indent=2)
      return products_sorted
  \<close>
\<close>

definition save_json :: "fs \<Rightarrow> product list \<Rightarrow> (error + product list) \<times> fs" where
  "save_json files products =
     (let products_sorted = sorted_products products
      in case open_w files [''products.json''] (JsonDump products_sorted) of
           Inl e \<Rightarrow> (Inl e, files)
         | Inr files' \<Rightarrow> (Inr products_sorted, files'))"

text \<open>
  The version with the pool writes below \<open>data\<close>.
  \<^verbatim>\<open>
  def save_json(products):
      products_sorted = sorted(products, key=lambda x: (x["product_name"], x["product_code"]))
      os.makedirs("data", exist_ok=True)
      with open("data/products.json", "w", encoding="utf-8") as f:
          json.dump(products_sorted, f, ensure_ascii=False, indent=2)
      return products_sorted
  \<close>
\<close>

definition save_json_pool :: "fs \<Rightarrow> product list \<Rightarrow> (error + product list) \<times> fs" where
  "save_json_pool files products =
     (let products_sorted = sorted_products products
      in case makedirs files ''data'' of
           Inl e \<Rightarrow> (Inl e, files)
         | Inr files1 \<Rightarrow>
             (case open_w files1 [''data'', ''products.json''] (JsonDump products_sorted) of
                Inl e \<Rightarrow> (Inl e, files1)
              | Inr files2 \<Rightarrow> (Inr products_sorted, files2)))"

text \<open>
  \<open>date_obj.strftime("%Y-%m-%d")\<close> for a date of the years 1000 to 9999: the year in
  four digits, month and day in two.
\<close>

record date =
  year :: nat
  month :: nat
  day :: nat

definition zero_pad :: "nat \<Rightarrow> string \<Rightarrow> string" where
  "zero_pad width digits = replicate (width - length digits) CHR ''0'' @ digits"

definition strftime_ymd :: "date \<Rightarrow> string" where
  "strftime_ymd d =
     zero_pad 4 (nat_digits (year d)) @ ''-'' @ zero_pad 2 (nat_digits (month d)) @ ''-''
       @ zero_pad 2 (nat_digits (day d))"

text \<open>
  \<^verbatim>\<open>
  def write_last_updated_file(date_obj):
      iso_date = date_obj.strftime("%Y-%m-%d")
      with open("last_updated.txt", "w", encoding="utf-8") as f:
          f.write(iso_date)
  \<close>
  and, with the pool,
  \<^verbatim>\<open>
  def write_last_updated_file(date_obj):
      iso_date = date_obj.strftime("%Y-%m-%d")
      os.makedirs("data", exist_ok=True)
      with open("data/last_updated.txt", "w", encoding="utf-8") as f:
          f.write(iso_date)
  \<close>
\<close>

definition write_last_updated_file :: "fs \<Rightarrow> date \<Rightarrow> (error + unit) \<times> fs" where
  "write_last_updated_file files date_obj =
     (let iso_date = strftime_ymd date_obj
      in case open_w files [''last_updated.txt''] (PlainText iso_date) of
           Inl e \<Rightarrow> (Inl e, files)
         | Inr files' \<Rightarrow> (Inr (), files'))"

definition write_last_updated_file_pool :: "fs \<Rightarrow> date \<Rightarrow> (error + unit) \<times> fs" where
  "write_last_updated_file_pool files date_obj =
     (let iso_date = strftime_ymd date_obj
      in case makedirs files ''data'' of
           Inl e \<Rightarrow> (Inl e, files)
         | Inr files1 \<Rightarrow>
             (case open_w files1 [''data'', ''last_updated.txt''] (PlainText iso_date) of
                Inl e \<Rightarrow> (Inl e, files1)
              | Inr files2 \<Rightarrow> (Inr (), files2)))"

section \<open>The two programs\<close>

text \<open>
  \<^verbatim>\<open>
  def main():
      session = login()
      catalog = collect_full_catalog(session)
      products = enrich_with_prices(session, catalog)
      save_json(products)
      write_last_updated_file(datetime.now().date())
  \<close>
  The result is how the run ends (normally, or with the exception that ends it), the
  session and the file system it leaves.
\<close>

definition main ::
  "(string \<rightharpoonup> string) \<Rightarrow> 'w server \<Rightarrow> 'w session \<Rightarrow> fs \<Rightarrow> date
   \<Rightarrow> (error + unit) \<times> 'w session \<times> fs" where
  "main env srv s files today =
     (case login env srv s of
        (Inl e, s1) \<Rightarrow> (Inl e, s1, files)
      | (Inr _, s1) \<Rightarrow>
          (case collect_full_catalog srv s1 of
             (Inl e, s2) \<Rightarrow> (Inl e, s2, files)
           | (Inr catalog, s2) \<Rightarrow>
               (let (products, s3) = enrich_with_prices srv s2 catalog
                in case save_json files products of
                     (Inl e, files1) \<Rightarrow> (Inl e, s3, files1)
                   | (Inr _, files1) \<Rightarrow>
                       (case write_last_updated_file files1 today of
                          (Inl e, files2) \<Rightarrow> (Inl e, s3, files2)
                        | (Inr _, files2) \<Rightarrow> (Inr (), s3, files2)))))"

definition main_pool ::
  "pool \<Rightarrow> (string \<rightharpoonup> string) \<Rightarrow> 'w server \<Rightarrow> 'w session \<Rightarrow> fs \<Rightarrow> date
   \<Rightarrow> (error + unit) \<times> 'w session \<times> fs" where
  "main_pool p env srv s files today =
     (case login env srv s of
        (Inl e, s1) \<Rightarrow> (Inl e, s1, files)
      | (Inr _, s1) \<Rightarrow>
          (case collect_full_catalog_pool p srv s1 of
             (Inl e, s2) \<Rightarrow> (Inl e, s2, files)
           | (Inr catalog, s2) \<Rightarrow>
               (let (products, s3) = enrich_with_prices_pool p srv s2 catalog
                in case save_json_pool files products of
                     (Inl e, files1) \<Rightarrow> (Inl e, s3, files1)
                   | (Inr _, files1) \<Rightarrow>
                       (case write_last_updated_file_pool files1 today of
                          (Inl e, files2) \<Rightarrow> (Inl e, s3, files2)
                        | (Inr _, files2) \<Rightarrow> (Inr (), s3, files2)))))"

text \<open>
  The exit status of the process: the argument of \<open>sys.exit\<close>, 1 for any other uncaught
  exception, 0 when \<open>main\<close> returns.
\<close>

definition exit_status :: "error + unit \<Rightarrow> nat" where
  "exit_status r = (case r of Inr _ \<Rightarrow> 0 | Inl (SystemExit n) \<Rightarrow> n | Inl _ \<Rightarrow> 1)"

section \<open>Notions of the specification\<close>

text \<open>
  The segments of the specification's parsing rule: split on the slash, trim each
  segment, drop the empty ones.
\<close>

definition nonempty_segments :: "string \<Rightarrow> string list" where
  "nonempty_segments text = filter (\<lambda>p. p \<noteq> []) (map strip (split CHR ''/'' text))"

section \<open>Concrete inputs\<close>

text \<open>
  A fresh session against a server without state, a pair of credentials, a server that
  lets the request with the user name alone fail and answers every other request with
  status 200, a server that answers that request and lets every other one fail, and
  servers that answer every request with one status.
\<close>

definition fresh_session :: "unit session" where
  "fresh_session = \<lparr>world = (), exchanges = []\<rparr>"

definition ok_response :: response where
  "ok_response = \<lparr>status_code = 200, body_text = [], body_json = NotJson\<rparr>"

definition credentials :: "string \<rightharpoonup> string" where
  "credentials = [''ISLANDSUN_USERNAME'' \<mapsto> ''u'', ''ISLANDSUN_PASSWORD'' \<mapsto> ''p'']"

definition first_login_fails :: "unit server" where
  "first_login_fails w rq =
     (if rq = (LOGIN_URL, [(''user'', ''u'')]) then (Raised, w) else (Resp ok_response, w))"

definition second_login_fails :: "unit server" where
  "second_login_fails w rq =
     (if rq = (LOGIN_URL, [(''user'', ''u'')]) then (Resp ok_response, w) else (Raised, w))"

definition always_status :: "nat \<Rightarrow> unit server" where
  "always_status st w rq = (Resp (ok_response\<lparr>status_code := st\<rparr>), w)"

text \<open>
  The key of a catalog entry, the keys that may enter the catalog, the keys of the items
  of a result list, and a list reduced to the first occurrence of each element.
\<close>

definition entry_key :: "entry \<Rightarrow> key" where
  "entry_key e = (entry_id e, entry_text e)"

definition valid_key :: "key \<Rightarrow> bool" where
  "valid_key k = (fst k \<noteq> [] \<and> snd k \<noteq> [])"

definition keys_of :: "item list \<Rightarrow> key list" where
  "keys_of items = concat (map (\<lambda>it. case it of Dict d \<Rightarrow> [item_key d] | NotDict \<Rightarrow> []) items)"

definition first_seen :: "'a list \<Rightarrow> 'a list" where
  "first_seen xs = rev (remdups (rev xs))"

text \<open>The results of the sequential fetches of a list of terms, in that order.\<close>

definition term_results :: "'w server \<Rightarrow> string list \<Rightarrow> 'w session \<Rightarrow> item list list" where
  "term_results srv ts s = map snd (fst (run_tasks (fetch_products_for_term srv) ts s))"

definition widget :: item where
  "widget = Dict [''id'' \<mapsto> JInt 7, ''text'' \<mapsto> JStr '' ABC / Widget'']"

definition nameless :: item where
  "nameless = Dict [''id'' \<mapsto> JStr ''8'', ''text'' \<mapsto> JStr ''  '']"

definition gadget :: item where
  "gadget = Dict [''id'' \<mapsto> JStr ''9'', ''text'' \<mapsto> JStr ''G'']"

text \<open>One step of the merge loop: the catalog after looking at one key.\<close>

definition add_key :: "catalog \<Rightarrow> key \<Rightarrow> catalog" where
  "add_key cat k =
     (if k \<notin> set (map fst cat) \<and> fst k \<noteq> [] \<and> snd k \<noteq> []
      then cat @ [(k, \<lparr>entry_id = fst k, entry_text = snd k\<rparr>)] else cat)"

text \<open>
  The request that fetches the price of an id, the price a fetch resolves an outcome to,
  a failed price fetch (an exception or a status other than 200), and the record built
  from a catalog entry and a price.
\<close>

definition price_request :: "string \<Rightarrow> request" where
  "price_request pid = (PRICE_URL, [(''id'', pid)])"

definition price_of :: "post_result \<Rightarrow> string" where
  "price_of r =
     (case r of
        Raised \<Rightarrow> []
      | Resp resp \<Rightarrow> if status_code resp = 200 then strip (body_text resp) else [])"

definition price_failed :: "post_result \<Rightarrow> bool" where
  "price_failed r = (case r of Raised \<Rightarrow> True | Resp resp \<Rightarrow> status_code resp \<noteq> 200)"

definition make_product :: "entry \<Rightarrow> string \<Rightarrow> product" where
  "make_product e price =
     \<lparr>product_name = snd (parse_code_and_name (entry_text e)),
      product_code = fst (parse_code_and_name (entry_text e)),
      marketing_price = price\<rparr>"

text \<open>
  What both enrichers establish: the new exchanges are the price requests of the ids
  \<open>ids\<close>, every outcome is in the cache as the price it resolves to, and the records
  are built from the catalog and the cache, in catalog order.
\<close>

definition enriched_by ::
  "entry list \<Rightarrow> (request \<times> post_result) list \<Rightarrow> string list \<Rightarrow> (string \<rightharpoonup> string)
   \<Rightarrow> product list \<Rightarrow> bool" where
  "enriched_by cat new ids id_to_price enriched =
     (map fst new = map price_request ids \<and>
      (\<forall>(rq, r)\<in>set new. \<forall>pid. rq = price_request pid \<longrightarrow> id_to_price pid = Some (price_of r)) \<and>
      enriched = map (\<lambda>e. make_product e (dict_get id_to_price (entry_id e) [])) cat)"




definition failing_catalog :: "entry list" where
  "failing_catalog =
     [\<lparr>entry_id = ''42'', entry_text = ''A / X''\<rparr>,
      \<lparr>entry_id = ''7'', entry_text = ''B / Y''\<rparr>,
      \<lparr>entry_id = ''13'', entry_text = ''Z''\<rparr>]"

definition flaky_server :: "unit server" where
  "flaky_server w rq =
     (if rq = price_request ''42'' then (Raised, w)
      else if rq = price_request ''13''
      then (Resp \<lparr>status_code = 500, body_text = ''9.99'', body_json = NotJson\<rparr>, w)
      else (Resp \<lparr>status_code = 200, body_text = '' 12.50 '', body_json = NotJson\<rparr>, w))"

definition in_order :: pool where
  "in_order = \<lparr>run_order = (\<lambda>tasks. tasks), done_order = (\<lambda>tasks. tasks)\<rparr>"

definition reversed :: pool where
  "reversed = \<lparr>run_order = (\<lambda>tasks. tasks), done_order = rev\<rparr>"

text \<open>
  A server whose answers depend on the request alone; the request that searches a term
  and the item list a search outcome resolves to; the list that each program hands to
  \<open>json.dump\<close> when run with an established session.
\<close>

definition stateless :: "(request \<Rightarrow> post_result) \<Rightarrow> 'w server" where
  "stateless answers w rq = (answers rq, w)"

definition term_request :: "string \<Rightarrow> request" where
  "term_request t = (PRODUCT_URL, [(''param'', t)])"

definition items_of :: "post_result \<Rightarrow> item list" where
  "items_of r =
     (case r of
        Raised \<Rightarrow> []
      | Resp resp \<Rightarrow>
          if http_error (status_code resp) then []
          else (case body_json resp of NotJson \<Rightarrow> [] | JsonList data \<Rightarrow> data | JsonOther \<Rightarrow> []))"

definition persisted :: "'w server \<Rightarrow> 'w session \<Rightarrow> error + product list" where
  "persisted srv s =
     (case collect_full_catalog srv s of
        (Inl e, s1) \<Rightarrow> Inl e
      | (Inr catalog, s1) \<Rightarrow> Inr (sorted_products (fst (enrich_with_prices srv s1 catalog))))"

definition persisted_pool :: "pool \<Rightarrow> 'w server \<Rightarrow> 'w session \<Rightarrow> error + product list" where
  "persisted_pool p srv s =
     (case collect_full_catalog_pool p srv s of
        (Inl e, s1) \<Rightarrow> Inl e
      | (Inr catalog, s1) \<Rightarrow>
          Inr (sorted_products (fst (enrich_with_prices_pool p srv s1 catalog))))"

text \<open>
  Two products with different ids and different prices, found by different terms; the
  text of the second one is a parameter.
\<close>

definition first_item :: item where
  "first_item = Dict [''id'' \<mapsto> JStr ''1'', ''text'' \<mapsto> JStr ''A / X'']"

definition second_item :: "string \<Rightarrow> item" where
  "second_item x = Dict [''id'' \<mapsto> JStr ''2'', ''text'' \<mapsto> JStr x]"

definition two_products :: "string \<Rightarrow> request \<Rightarrow> post_result" where
  "two_products x rq =
     (if rq = term_request ''00''
      then Resp \<lparr>status_code = 200, body_text = [], body_json = JsonList [first_item]\<rparr>
      else if rq = term_request ''01''
      then Resp \<lparr>status_code = 200, body_text = [], body_json = JsonList [second_item x]\<rparr>
      else if rq = price_request ''1''
      then Resp \<lparr>status_code = 200, body_text = ''10'', body_json = NotJson\<rparr>
      else if rq = price_request ''2''
      then Resp \<lparr>status_code = 200, body_text = ''20'', body_json = NotJson\<rparr>
      else Raised)"

text \<open>
  Against a stateless server: the items a term finds and the record an entry is enriched
  to.
\<close>

definition found :: "(request \<Rightarrow> post_result) \<Rightarrow> string \<Rightarrow> item list" where
  "found a t = items_of (a (term_request t))"

definition priced :: "(request \<Rightarrow> post_result) \<Rightarrow> entry \<Rightarrow> product" where
  "priced a e = make_product e (price_of (a (price_request (entry_id e))))"

section \<open>Properties of the string functions\<close>

lemma parse_parts_segments: "parse_parts text = nonempty_segments text"
  by (simp add: parse_parts_def nonempty_segments_def filter_map comp_def)

lemma split_not_Nil: "split sep s \<noteq> []"
  by (induction s) (auto split: list.splits)

lemma join_Cons: "ps \<noteq> [] \<Longrightarrow> join sep (p # ps) = p @ sep @ join sep ps"
  by (cases ps) auto

lemma join_split: "join [sep] (split sep s) = s"
proof (induction s)
  case Nil
  show ?case by simp
next
  case (Cons c cs)
  show ?case
  proof (cases "c = sep")
    case True
    with Cons show ?thesis by (simp add: join_Cons split_not_Nil)
  next
    case False
    obtain p ps where sp: "split sep cs = p # ps"
      using split_not_Nil [of sep cs] by (cases "split sep cs") auto
    have "join [sep] ((c # p) # ps) = c # join [sep] (p # ps)"
      by (cases ps) auto
    with False sp Cons show ?thesis by simp
  qed
qed

lemma split_no_sep: "p \<in> set (split sep s) \<Longrightarrow> sep \<notin> set p"
  by (induction s arbitrary: p) (auto split: if_splits list.splits)

lemma strip_decompose:
  "\<exists>a b. s = a @ strip s @ b \<and> (\<forall>c\<in>set a. is_space c) \<and> (\<forall>c\<in>set b. is_space c)"
proof -
  let ?a = "takeWhile is_space s"
  let ?m = "dropWhile is_space s"
  let ?b = "rev (takeWhile is_space (rev ?m))"
  have "rev ?m = takeWhile is_space (rev ?m) @ dropWhile is_space (rev ?m)" by simp
  then have "?m = strip s @ ?b"
    unfolding strip_def by (metis rev_append rev_rev_ident)
  then have "s = ?a @ strip s @ ?b"
    by (metis takeWhile_dropWhile_id)
  moreover have "\<forall>c\<in>set ?a. is_space c" by (auto dest: set_takeWhileD)
  moreover have "\<forall>c\<in>set ?b. is_space c" by (auto dest: set_takeWhileD)
  ultimately show ?thesis by blast
qed

lemma strip_ends:
  "strip s \<noteq> [] \<Longrightarrow> \<not> is_space (hd (strip s)) \<and> \<not> is_space (last (strip s))"
proof -
  assume ne: "strip s \<noteq> []"
  let ?m = "dropWhile is_space s"
  let ?r = "dropWhile is_space (rev ?m)"
  have r: "?r \<noteq> []" using ne by (simp add: strip_def)
  then have 1: "\<not> is_space (hd ?r)" by (rule hd_dropWhile)
  have l: "last (strip s) = hd ?r" using r by (simp add: strip_def last_rev)
  have m: "?m \<noteq> []"
  proof
    assume "?m = []"
    then have "?r = []" by (metis dropWhile.simps(1) rev.simps(1))
    with r show False by contradiction
  qed
  then have 2: "\<not> is_space (hd ?m)" by (rule hd_dropWhile)
  have "hd (strip s) = last ?r" using r by (simp add: strip_def hd_rev)
  also have "\<dots> = last (rev ?m)"
    using r by (metis append_Nil2 last_appendR takeWhile_dropWhile_id)
  also have "\<dots> = hd ?m" using m by (simp add: last_rev)
  finally show ?thesis using 1 2 l by simp
qed

section \<open>The parser\<close>

text \<open>
  Claim C1, as the code has it. For every text, with the segments obtained by splitting
  on the slash, trimming and dropping the empty ones: without a segment the code is empty
  and the name is the trimmed text; with exactly one segment the code is that segment and
  the name is the whole trimmed text; with two or more the code is the first segment and
  the name is the others joined with " / ". So "7 / Blue Widget" gives code "7" and
  name "Blue Widget", " A / B / C " gives code "A" and name "B / C", and "SoloName",
  which has one segment, gives code "SoloName" and name "SoloName".
\<close>

theorem parse_code_and_name_cases:
  "(nonempty_segments text = [] \<longrightarrow> parse_code_and_name text = ([], strip text)) \<and>
   (\<forall>c. nonempty_segments text = [c] \<longrightarrow> parse_code_and_name text = (c, strip text)) \<and>
   (\<forall>c p ps. nonempty_segments text = c # p # ps \<longrightarrow>
        parse_code_and_name text = (c, join '' / '' (p # ps))) \<and>
   parse_code_and_name ''7 / Blue Widget'' = (''7'', ''Blue Widget'') \<and>
   parse_code_and_name ''SoloName'' = (''SoloName'', ''SoloName'') \<and>
   parse_code_and_name '' A / B / C '' = (''A'', ''B / C'')"
  by (simp add: parse_code_and_name_def parse_parts_segments)
     (simp add: nonempty_segments_def strip_def is_space_def)

theorem parse_code_and_name_cases_witness:
  "nonempty_segments ''A/'' = [''A''] \<and> parse_code_and_name ''A/'' = (''A'', ''A/'')"
  using parse_code_and_name_cases [of "''A/''"]
  by (simp add: nonempty_segments_def strip_def is_space_def)

text \<open>
  Claim C1 as stated gives the text "SoloName" the empty code. The text has one
  non-empty segment, and the parser returns that segment as the code.
\<close>

theorem parse_solo_counterexample:
  "parse_code_and_name ''SoloName'' \<noteq> ('''', ''SoloName'')"
  by (simp add: parse_code_and_name_def parse_parts_def strip_def is_space_def)

section \<open>The enumeration of the search terms\<close>

lemma concat_map_product:
  "concat (map (\<lambda>x. map (f x) ys) xs) = map (\<lambda>(a, b). f a b) (List.product xs ys)"
  by (induction xs) auto

lemma terms_product: "terms = map (\<lambda>(a, b). [a, b]) (List.product alphabet alphabet)"
proof -
  have "product_repeat alphabet 2 =
        concat (map (\<lambda>x. map (\<lambda>y. x @ [y]) alphabet) (map (\<lambda>y. [y]) alphabet))"
    by (simp add: numeral_2_eq_2)
  also have "\<dots> = concat (map (\<lambda>a. map (\<lambda>b. [a, b]) alphabet) alphabet)"
    by (simp add: comp_def)
  finally show ?thesis by (simp add: terms_def concat_map_product)
qed

lemma length_alphabet: "length alphabet = 36"
  by (simp add: alphabet_def ascii_lowercase_def)

lemma distinct_alphabet: "distinct alphabet"
  by (simp add: alphabet_def ascii_lowercase_def)

lemma distinct_terms: "distinct terms"
  unfolding terms_product
  by (rule distinct_map [THEN iffD2])
     (auto simp: distinct_product distinct_alphabet inj_on_def)

lemma set_terms: "set terms = {[a, b] | a b. a \<in> set alphabet \<and> b \<in> set alphabet}"
  unfolding terms_product by auto

lemma terms_nth:
  assumes "i < 36" "j < 36"
  shows "terms ! (36 * i + j) = [alphabet ! i, alphabet ! j]"
proof -
  have "36 * i + j < 36 * 36" using assms by simp
  then have lt: "36 * i + j < length alphabet * length alphabet" by (simp add: length_alphabet)
  have "(36 * i + j) div 36 = i" "(36 * i + j) mod 36 = j" using assms by simp_all
  then show ?thesis
    unfolding terms_product using lt
    by (simp add: product_nth length_alphabet)
qed

text \<open>
  Claim C3. The alphabet is the ten digits followed by the lowercase letters; the search
  terms are exactly the strings of two characters of the alphabet, each once, 1296 in
  all, and the term at position \<open>36 * i + j\<close> is made of the characters at positions
  \<open>i\<close> and \<open>j\<close> of the alphabet, so the first character varies slowest.
\<close>

theorem terms_enumeration:
  "alphabet = ''0123456789abcdefghijklmnopqrstuvwxyz'' \<and>
   set terms = {s. length s = 2 \<and> set s \<subseteq> set alphabet} \<and>
   distinct terms \<and>
   length terms = 1296 \<and>
   (\<forall>i<36. \<forall>j<36. terms ! (36 * i + j) = [alphabet ! i, alphabet ! j])"
proof -
  have "{[a, b] | a b. a \<in> set alphabet \<and> b \<in> set alphabet}
        = {s. length s = 2 \<and> set s \<subseteq> set alphabet}" (is "?L = ?R")
  proof
    show "?L \<subseteq> ?R" by auto
    show "?R \<subseteq> ?L"
    proof
      fix s assume "s \<in> ?R"
      then have l: "length s = 2" and sub: "set s \<subseteq> set alphabet" by auto
      from l obtain a b where "s = [a, b]"
        by (metis (no_types, opaque_lifting) One_nat_def Suc_1 length_0_conv length_Suc_conv)
      with sub show "s \<in> ?L" by auto
    qed
  qed
  moreover have "length terms = 1296"
    by (simp add: terms_product length_alphabet)
  ultimately show ?thesis
    using set_terms distinct_terms terms_nth
    by (simp add: alphabet_def ascii_lowercase_def)
qed

theorem terms_enumeration_witness:
  "(1::nat) < 36 \<and> (10::nat) < 36 \<and> terms ! 46 = ''1a''"
proof -
  have h: "\<And>i j. i < 36 \<Longrightarrow> j < 36 \<Longrightarrow> terms ! (36 * i + j) = [alphabet ! i, alphabet ! j]"
    using terms_enumeration by blast
  have "terms ! (36 * 1 + 10) = [alphabet ! 1, alphabet ! 10]"
    by (rule h) simp_all
  then show ?thesis by (simp add: alphabet_def ascii_lowercase_def)
qed

section \<open>Login\<close>

lemma login_missing:
  assumes "env ''ISLANDSUN_USERNAME'' = None \<or> env ''ISLANDSUN_USERNAME'' = Some []
         \<or> env ''ISLANDSUN_PASSWORD'' = None \<or> env ''ISLANDSUN_PASSWORD'' = Some []"
  shows "login env srv s = (Inl (SystemExit 2), s)"
  using assms by (auto simp: login_def split: option.splits)

lemma main_login_exit:
  assumes "fst (login env srv s) = Inl e"
  shows "fst (main env srv s files today) = Inl e" "fst (main_pool p env srv s files today) = Inl e"
  using assms by (auto simp: main_def main_pool_def split: prod.splits sum.splits)

lemma merge_items_error: "merge_items cat items = Inl e \<Longrightarrow> e = AttributeError"
  by (induction cat items rule: merge_items.induct) (simp_all add: Let_def)

lemma collect_loop_error: "fst (collect_loop srv ts cat s) = Inl e \<Longrightarrow> e = AttributeError"
proof (induction ts arbitrary: cat s)
  case Nil
  then show ?case by simp
next
  case (Cons t ts)
  obtain items s1 where f: "fetch_products_for_term srv s t = (items, s1)" by force
  show ?case
  proof (cases "merge_items cat items")
    case (Inl e')
    with Cons.prems f show ?thesis by (simp add: merge_items_error)
  next
    case (Inr cat')
    with Cons.prems f have "fst (collect_loop srv ts cat' s1) = Inl e" by simp
    then show ?thesis by (rule Cons.IH)
  qed
qed

lemma merge_terms_error: "merge_terms cat rs = Inl e \<Longrightarrow> e = AttributeError"
proof (induction rs arbitrary: cat)
  case Nil
  then show ?case by simp
next
  case (Cons items rs)
  then show ?case
    by (cases "merge_items cat items") (auto simp: merge_items_error)
qed

lemma collect_errors:
  "fst (collect_full_catalog srv s) = Inl e \<Longrightarrow> e = AttributeError"
  "fst (collect_full_catalog_pool p srv s) = Inl e \<Longrightarrow> e = AttributeError"
proof -
  assume "fst (collect_full_catalog srv s) = Inl e"
  then have "fst (collect_loop srv terms [] s) = Inl e"
    by (cases "collect_loop srv terms [] s")
       (auto simp: collect_full_catalog_def split: sum.splits)
  then show "e = AttributeError" by (rule collect_loop_error)
next
  assume "fst (collect_full_catalog_pool p srv s) = Inl e"
  then show "e = AttributeError"
    by (auto simp: collect_full_catalog_pool_def split: prod.splits sum.splits
        dest: merge_terms_error)
qed

lemma file_errors:
  "open_w files pth doc = Inl e \<Longrightarrow> exit_status (Inl e) = 1"
  "makedirs files name = Inl e \<Longrightarrow> exit_status (Inl e) = 1"
  by (auto simp: open_w_def makedirs_def exit_status_def split: option.splits node.splits)

lemma persistence_errors:
  "fst (save_json files products) = Inl e \<Longrightarrow> exit_status (Inl e) = 1"
  "fst (save_json_pool files products) = Inl e \<Longrightarrow> exit_status (Inl e) = 1"
  "fst (write_last_updated_file files today) = Inl e \<Longrightarrow> exit_status (Inl e) = 1"
  "fst (write_last_updated_file_pool files today) = Inl e \<Longrightarrow> exit_status (Inl e) = 1"
  by (auto simp: save_json_def save_json_pool_def write_last_updated_file_def
      write_last_updated_file_pool_def Let_def split: sum.splits dest: file_errors)

lemma main_after_login:
  assumes "fst (login env srv s) = Inr ()"
  shows "exit_status (fst (main env srv s files today)) \<le> 1"
proof -
  obtain s1 where l: "login env srv s = (Inr (), s1)"
    using assms by (cases "login env srv s") auto
  obtain c s2 where c: "collect_full_catalog srv s1 = (c, s2)" by force
  obtain products s3 where e: "enrich_with_prices srv s2 (projr c) = (products, s3)" by force
  obtain j files1 where j: "save_json files products = (j, files1)" by force
  obtain u files2 where u: "write_last_updated_file files1 today = (u, files2)" by force
  show ?thesis
  proof (cases c)
    case (Inl err)
    with c have "err = AttributeError" using collect_errors(1) [of srv s1 err] by simp
    with l c Inl show ?thesis by (simp add: main_def exit_status_def)
  next
    case (Inr catalog)
    show ?thesis
    proof (cases j)
      case (Inl err)
      with j have "exit_status (Inl err) = 1" using persistence_errors(1) [of files products err] by simp
      with l c Inr e j Inl show ?thesis by (simp add: main_def)
    next
      case jr: (Inr sorted)
      show ?thesis
      proof (cases u)
        case (Inl err)
        with u have "exit_status (Inl err) = 1"
          using persistence_errors(3) [of files1 today err] by simp
        with l c Inr e j jr u Inl show ?thesis by (simp add: main_def)
      next
        case ur: (Inr x)
        with l c Inr e j jr u show ?thesis by (simp add: main_def exit_status_def)
      qed
    qed
  qed
qed

lemma main_pool_after_login:
  assumes "fst (login env srv s) = Inr ()"
  shows "exit_status (fst (main_pool p env srv s files today)) \<le> 1"
proof -
  obtain s1 where l: "login env srv s = (Inr (), s1)"
    using assms by (cases "login env srv s") auto
  obtain c s2 where c: "collect_full_catalog_pool p srv s1 = (c, s2)" by force
  obtain products s3 where e: "enrich_with_prices_pool p srv s2 (projr c) = (products, s3)"
    by force
  obtain j files1 where j: "save_json_pool files products = (j, files1)" by force
  obtain u files2 where u: "write_last_updated_file_pool files1 today = (u, files2)" by force
  show ?thesis
  proof (cases c)
    case (Inl err)
    with c have "err = AttributeError" using collect_errors(2) [of p srv s1 err] by simp
    with l c Inl show ?thesis by (simp add: main_pool_def exit_status_def)
  next
    case (Inr catalog)
    show ?thesis
    proof (cases j)
      case (Inl err)
      with j have "exit_status (Inl err) = 1"
        using persistence_errors(2) [of files products err] by simp
      with l c Inr e j Inl show ?thesis by (simp add: main_pool_def)
    next
      case jr: (Inr sorted)
      show ?thesis
      proof (cases u)
        case (Inl err)
        with u have "exit_status (Inl err) = 1"
          using persistence_errors(4) [of files1 today err] by simp
        with l c Inr e j jr u Inl show ?thesis by (simp add: main_pool_def)
      next
        case ur: (Inr x)
        with l c Inr e j jr u show ?thesis by (simp add: main_pool_def exit_status_def)
      qed
    qed
  qed
qed

text \<open>
  Claim C6, as the code has it. When either credential variable is unset or empty, login
  ends the process with exit status 2 and the session is untouched: no request was sent.
  With both credentials, when the first request (user name alone) returns a response of
  any status: login ends the process with exit status 3 when the second request raises or
  returns a status from 400 to 599 (the statuses \<open>raise_for_status\<close> rejects), and
  returns the session, after exactly these two requests, when the second request returns
  any other status. When login ends the process, its exit status is that of both programs;
  when login returns, they end with exit status 0, or with 1 after an uncaught exception.
\<close>

theorem login_outcomes:
  "(env ''ISLANDSUN_USERNAME'' = None \<or> env ''ISLANDSUN_USERNAME'' = Some []
      \<or> env ''ISLANDSUN_PASSWORD'' = None \<or> env ''ISLANDSUN_PASSWORD'' = Some []
    \<longrightarrow> login env srv s = (Inl (SystemExit 2), s)
        \<and> exit_status (fst (main env srv s files today)) = 2
        \<and> exit_status (fst (main_pool p env srv s files today)) = 2) \<and>
   (env ''ISLANDSUN_USERNAME'' = Some username \<and> username \<noteq> []
      \<and> env ''ISLANDSUN_PASSWORD'' = Some password \<and> password \<noteq> []
      \<and> srv (world s) (LOGIN_URL, [(''user'', username)]) = (Resp r1, w1)
    \<longrightarrow> (srv w1 (LOGIN_URL, [(''user'', username), (''password'', password)]) = (Raised, w2)
          \<longrightarrow> fst (login env srv s) = Inl (SystemExit 3)
              \<and> exit_status (fst (main env srv s files today)) = 3
              \<and> exit_status (fst (main_pool p env srv s files today)) = 3) \<and>
        (srv w1 (LOGIN_URL, [(''user'', username), (''password'', password)]) = (Resp r2, w2)
           \<and> 400 \<le> status_code r2 \<and> status_code r2 < 600
          \<longrightarrow> fst (login env srv s) = Inl (SystemExit 3)
              \<and> exit_status (fst (main env srv s files today)) = 3
              \<and> exit_status (fst (main_pool p env srv s files today)) = 3) \<and>
        (srv w1 (LOGIN_URL, [(''user'', username), (''password'', password)]) = (Resp r2, w2)
           \<and> \<not> (400 \<le> status_code r2 \<and> status_code r2 < 600)
          \<longrightarrow> login env srv s =
                (Inr (),
                 \<lparr>world = w2,
                  exchanges = exchanges s @
                    [((LOGIN_URL, [(''user'', username)]), Resp r1),
                     ((LOGIN_URL, [(''user'', username), (''password'', password)]), Resp r2)]\<rparr>)
              \<and> exit_status (fst (main env srv s files today)) \<le> 1
              \<and> exit_status (fst (main_pool p env srv s files today)) \<le> 1))"
proof (intro conjI impI)
  assume m: "env ''ISLANDSUN_USERNAME'' = None \<or> env ''ISLANDSUN_USERNAME'' = Some []
      \<or> env ''ISLANDSUN_PASSWORD'' = None \<or> env ''ISLANDSUN_PASSWORD'' = Some []"
  then show l: "login env srv s = (Inl (SystemExit 2), s)" by (rule login_missing)
  then have "fst (login env srv s) = Inl (SystemExit 2)" by simp
  then show "exit_status (fst (main env srv s files today)) = 2"
    "exit_status (fst (main_pool p env srv s files today)) = 2"
    by (simp_all add: main_login_exit exit_status_def)
next
  assume c: "env ''ISLANDSUN_USERNAME'' = Some username \<and> username \<noteq> []
      \<and> env ''ISLANDSUN_PASSWORD'' = Some password \<and> password \<noteq> []
      \<and> srv (world s) (LOGIN_URL, [(''user'', username)]) = (Resp r1, w1)"
  {
    assume "srv w1 (LOGIN_URL, [(''user'', username), (''password'', password)]) = (Raised, w2)"
    with c show l: "fst (login env srv s) = Inl (SystemExit 3)"
      by (simp add: login_def post_def)
    then show "exit_status (fst (main env srv s files today)) = 3"
      "exit_status (fst (main_pool p env srv s files today)) = 3"
      by (simp_all add: main_login_exit exit_status_def)
  next
    assume "srv w1 (LOGIN_URL, [(''user'', username), (''password'', password)]) = (Resp r2, w2)
           \<and> 400 \<le> status_code r2 \<and> status_code r2 < 600"
    with c show l: "fst (login env srv s) = Inl (SystemExit 3)"
      by (simp add: login_def post_def http_error_def)
    then show "exit_status (fst (main env srv s files today)) = 3"
      "exit_status (fst (main_pool p env srv s files today)) = 3"
      by (simp_all add: main_login_exit exit_status_def)
  next
    assume "srv w1 (LOGIN_URL, [(''user'', username), (''password'', password)]) = (Resp r2, w2)
           \<and> \<not> (400 \<le> status_code r2 \<and> status_code r2 < 600)"
    with c show l: "login env srv s =
                (Inr (),
                 \<lparr>world = w2,
                  exchanges = exchanges s @
                    [((LOGIN_URL, [(''user'', username)]), Resp r1),
                     ((LOGIN_URL, [(''user'', username), (''password'', password)]), Resp r2)]\<rparr>)"
      by (simp add: login_def post_def http_error_def)
    then have "fst (login env srv s) = Inr ()" by simp
    then show "exit_status (fst (main env srv s files today)) \<le> 1"
      "exit_status (fst (main_pool p env srv s files today)) \<le> 1"
      by (rule main_after_login, rule main_pool_after_login)
  }
qed

theorem login_outcomes_witness:
  "login Map.empty (always_status 200) fresh_session = (Inl (SystemExit 2), fresh_session) \<and>
   fst (login credentials (always_status 404) fresh_session) = Inl (SystemExit 3) \<and>
   fst (login credentials (always_status 200) fresh_session) = Inr () \<and>
   fst (login credentials second_login_fails fresh_session) = Inl (SystemExit 3)"
proof -
  have a: "login Map.empty (always_status 200) fresh_session = (Inl (SystemExit 2), fresh_session)"
    using login_outcomes [where env = Map.empty and srv = "always_status 200" and s = fresh_session] by simp
  have b: "fst (login credentials (always_status 404) fresh_session) = Inl (SystemExit 3)"
    using login_outcomes [where env = credentials and username = "''u''" and password = "''p''"
        and srv = "always_status 404" and s = fresh_session
        and ?r1.0 = "ok_response\<lparr>status_code := 404\<rparr>" and ?w1.0 = "()" and ?w2.0 = "()"
        and ?r2.0 = "ok_response\<lparr>status_code := 404\<rparr>"]
    by (simp add: credentials_def always_status_def ok_response_def)
  have c: "fst (login credentials (always_status 200) fresh_session) = Inr ()"
    using login_outcomes [where env = credentials and username = "''u''" and password = "''p''"
        and srv = "always_status 200" and s = fresh_session
        and ?r1.0 = "ok_response\<lparr>status_code := 200\<rparr>" and ?w1.0 = "()" and ?w2.0 = "()"
        and ?r2.0 = "ok_response\<lparr>status_code := 200\<rparr>"]
    by (simp add: credentials_def always_status_def ok_response_def)
  have d: "fst (login credentials second_login_fails fresh_session) = Inl (SystemExit 3)"
    using login_outcomes [where env = credentials and username = "''u''" and password = "''p''"
        and srv = second_login_fails and s = fresh_session
        and ?r1.0 = ok_response and ?w1.0 = "()" and ?w2.0 = "()"]
    by (simp add: credentials_def second_login_fails_def fresh_session_def)
  from a b c d show ?thesis by simp
qed

text \<open>
  Claim C6 as stated lets login return a session whenever the credentials are present and
  the second request neither raises nor returns an error status. With the server that
  fails the first request only, the second request is never sent (the server would
  answer it with status 200), and login ends the process with exit status 3.
\<close>

theorem login_otherwise_counterexample:
  "credentials ''ISLANDSUN_USERNAME'' = Some ''u'' \<and>
   credentials ''ISLANDSUN_PASSWORD'' = Some ''p'' \<and>
   first_login_fails () (LOGIN_URL, [(''user'', ''u''), (''password'', ''p'')])
     = (Resp ok_response, ()) \<and>
   status_code ok_response = 200 \<and>
   map fst (exchanges (snd (login credentials first_login_fails fresh_session)))
     = [(LOGIN_URL, [(''user'', ''u'')])] \<and>
   fst (login credentials first_login_fails fresh_session) = Inl (SystemExit 3) \<and>
   fst (login credentials first_login_fails fresh_session) \<noteq> Inr ()"
  by (simp add: login_def post_def credentials_def first_login_fails_def fresh_session_def
      ok_response_def)

text \<open>
  Claim C10. With both credentials present, when the first request (user name alone)
  raises, login ends the process with exit status 3 and that request is the only one
  sent: the second request is not attempted.
\<close>

theorem login_first_request_raises:
  assumes "env ''ISLANDSUN_USERNAME'' = Some username" and "username \<noteq> []"
    and "env ''ISLANDSUN_PASSWORD'' = Some password" and "password \<noteq> []"
    and "srv (world s) (LOGIN_URL, [(''user'', username)]) = (Raised, w1)"
  shows "login env srv s =
           (Inl (SystemExit 3),
            \<lparr>world = w1,
             exchanges = exchanges s @ [((LOGIN_URL, [(''user'', username)]), Raised)]\<rparr>) \<and>
         exit_status (fst (main env srv s files today)) = 3 \<and>
         exit_status (fst (main_pool p env srv s files today)) = 3"
proof -
  have l: "login env srv s =
           (Inl (SystemExit 3),
            \<lparr>world = w1,
             exchanges = exchanges s @ [((LOGIN_URL, [(''user'', username)]), Raised)]\<rparr>)"
    using assms by (simp add: login_def post_def)
  then have "fst (login env srv s) = Inl (SystemExit 3)" by simp
  then have "exit_status (fst (main env srv s files today)) = 3"
    "exit_status (fst (main_pool p env srv s files today)) = 3"
    by (simp_all add: main_login_exit exit_status_def)
  with l show ?thesis by simp
qed

theorem login_first_request_raises_witness:
  "login credentials first_login_fails fresh_session =
     (Inl (SystemExit 3),
      \<lparr>world = (), exchanges = [((LOGIN_URL, [(''user'', ''u'')]), Raised)]\<rparr>)"
  using login_first_request_raises [where env = credentials and username = "''u''"
      and password = "''p''" and srv = first_login_fails and s = fresh_session and ?w1.0 = "()"]
  by (simp add: credentials_def first_login_fails_def fresh_session_def)

section \<open>Persistence\<close>





lemma save_json_pool_ok:
  assumes "\<forall>d. files [''data''] \<noteq> Some (File d)"
    and "files [''data'', ''products.json''] \<noteq> Some Dir"
  shows "save_json_pool files products =
           (Inr (sorted_products products),
            files([''data''] \<mapsto> Dir,
                  [''data'', ''products.json''] \<mapsto> File (JsonDump (sorted_products products))))"
proof (cases "files [''data'']")
  case None
  with assms show ?thesis
    by (auto simp: save_json_pool_def makedirs_def open_w_def lookup_def Let_def
        split: option.splits node.splits)
next
  case (Some n)
  with assms have n: "n = Dir" by (cases n) auto
  have "files([''data''] \<mapsto> Dir) = files" using Some n by auto
  with Some n assms show ?thesis
    by (auto simp: save_json_pool_def makedirs_def open_w_def lookup_def Let_def
        split: option.splits node.splits)
qed

lemma write_last_updated_file_pool_ok:
  assumes "\<forall>d. files [''data''] \<noteq> Some (File d)"
    and "files [''data'', ''last_updated.txt''] \<noteq> Some Dir"
  shows "write_last_updated_file_pool files today =
           (Inr (),
            files([''data''] \<mapsto> Dir,
                  [''data'', ''last_updated.txt''] \<mapsto> File (PlainText (strftime_ymd today))))"
proof (cases "files [''data'']")
  case None
  with assms show ?thesis
    by (auto simp: write_last_updated_file_pool_def makedirs_def open_w_def lookup_def Let_def
        split: option.splits node.splits)
next
  case (Some n)
  with assms have n: "n = Dir" by (cases n) auto
  have "files([''data''] \<mapsto> Dir) = files" using Some n by auto
  with Some n assms show ?thesis
    by (auto simp: write_last_updated_file_pool_def makedirs_def open_w_def lookup_def Let_def
        split: option.splits node.splits)
qed

lemma save_json_ok:
  assumes "files [''products.json''] \<noteq> Some Dir"
  shows "save_json files products =
           (Inr (sorted_products products),
            files([''products.json''] \<mapsto> File (JsonDump (sorted_products products))))"
  using assms
  by (auto simp: save_json_def open_w_def lookup_def Let_def split: option.splits node.splits)

lemma write_last_updated_file_ok:
  assumes "files [''last_updated.txt''] \<noteq> Some Dir"
  shows "write_last_updated_file files today =
           (Inr (), files([''last_updated.txt''] \<mapsto> File (PlainText (strftime_ymd today))))"
  using assms
  by (auto simp: write_last_updated_file_def open_w_def lookup_def Let_def
      split: option.splits node.splits)



text \<open>
  Claim C8, as the code has it. In the version with the pool, when \<open>data\<close> is not a
  regular file and the two target paths are not directories, \<open>save_json\<close> and
  \<open>write_last_updated_file\<close> succeed and leave \<open>data\<close> a directory holding
  \<open>products.json\<close> and \<open>last_updated.txt\<close> with the new contents, whatever was there
  before; nothing else changes. When \<open>data\<close> is a regular file, \<open>save_json\<close> raises
  FileExistsError. The sequential version writes both files into the working directory
  itself.
\<close>

theorem output_location:
  "((\<forall>d. files [''data''] \<noteq> Some (File d)) \<and>
    files [''data'', ''products.json''] \<noteq> Some Dir \<and>
    files [''data'', ''last_updated.txt''] \<noteq> Some Dir
    \<longrightarrow> (\<exists>files1.
          save_json_pool files products = (Inr (sorted_products products), files1) \<and>
          write_last_updated_file_pool files1 today =
            (Inr (),
             files([''data''] \<mapsto> Dir,
                   [''data'', ''products.json''] \<mapsto> File (JsonDump (sorted_products products)),
                   [''data'', ''last_updated.txt''] \<mapsto> File (PlainText (strftime_ymd today)))))) \<and>
   (files [''data''] = Some (File d)
    \<longrightarrow> save_json_pool files products = (Inl FileExistsError, files)) \<and>
   (files [''products.json''] \<noteq> Some Dir \<and> files [''last_updated.txt''] \<noteq> Some Dir
    \<longrightarrow> (\<exists>files1.
          save_json files products = (Inr (sorted_products products), files1) \<and>
          write_last_updated_file files1 today =
            (Inr (),
             files([''products.json''] \<mapsto> File (JsonDump (sorted_products products)),
                   [''last_updated.txt''] \<mapsto> File (PlainText (strftime_ymd today))))))"
proof (intro conjI impI)
  assume a: "(\<forall>d. files [''data''] \<noteq> Some (File d)) \<and>
    files [''data'', ''products.json''] \<noteq> Some Dir \<and>
    files [''data'', ''last_updated.txt''] \<noteq> Some Dir"
  let ?files1 = "files([''data''] \<mapsto> Dir,
      [''data'', ''products.json''] \<mapsto> File (JsonDump (sorted_products products)))"
  have 1: "save_json_pool files products = (Inr (sorted_products products), ?files1)"
    using a by (simp add: save_json_pool_ok)
  have "write_last_updated_file_pool ?files1 today =
          (Inr (), ?files1([''data''] \<mapsto> Dir,
             [''data'', ''last_updated.txt''] \<mapsto> File (PlainText (strftime_ymd today))))"
    using a by (intro write_last_updated_file_pool_ok) simp_all
  also have "?files1([''data''] \<mapsto> Dir) = ?files1" by auto
  finally show "\<exists>files1.
          save_json_pool files products = (Inr (sorted_products products), files1) \<and>
          write_last_updated_file_pool files1 today =
            (Inr (),
             files([''data''] \<mapsto> Dir,
                   [''data'', ''products.json''] \<mapsto> File (JsonDump (sorted_products products)),
                   [''data'', ''last_updated.txt''] \<mapsto> File (PlainText (strftime_ymd today))))"
    using 1 by blast
next
  assume "files [''data''] = Some (File d)"
  then show "save_json_pool files products = (Inl FileExistsError, files)"
    by (simp add: save_json_pool_def makedirs_def lookup_def)
next
  assume a: "files [''products.json''] \<noteq> Some Dir \<and> files [''last_updated.txt''] \<noteq> Some Dir"
  let ?files1 = "files([''products.json''] \<mapsto> File (JsonDump (sorted_products products)))"
  have 1: "save_json files products = (Inr (sorted_products products), ?files1)"
    using a by (simp add: save_json_ok)
  have "write_last_updated_file ?files1 today =
          (Inr (), ?files1([''last_updated.txt''] \<mapsto> File (PlainText (strftime_ymd today))))"
    using a by (intro write_last_updated_file_ok) simp_all
  with 1 show "\<exists>files1.
          save_json files products = (Inr (sorted_products products), files1) \<and>
          write_last_updated_file files1 today =
            (Inr (),
             files([''products.json''] \<mapsto> File (JsonDump (sorted_products products)),
                   [''last_updated.txt''] \<mapsto> File (PlainText (strftime_ymd today))))"
    by blast
qed

theorem output_location_witness:
  "save_json_pool Map.empty [] =
     (Inr [], [[''data''] \<mapsto> Dir, [''data'', ''products.json''] \<mapsto> File (JsonDump [])]) \<and>
   write_last_updated_file_pool
     [[''data''] \<mapsto> Dir, [''data'', ''products.json''] \<mapsto> File (JsonDump [])]
     \<lparr>year = 2026, month = 11, day = 4\<rparr> =
     (Inr (),
      [[''data''] \<mapsto> Dir, [''data'', ''products.json''] \<mapsto> File (JsonDump []),
       [''data'', ''last_updated.txt''] \<mapsto> File (PlainText ''2026-11-04'')]) \<and>
   save_json_pool [[''data''] \<mapsto> File (PlainText [])] [] =
     (Inl FileExistsError, [[''data''] \<mapsto> File (PlainText [])]) \<and>
   (\<exists>files1.
      save_json Map.empty [] = (Inr [], files1) \<and>
      write_last_updated_file files1 \<lparr>year = 2026, month = 11, day = 4\<rparr> =
        (Inr (),
         [[''products.json''] \<mapsto> File (JsonDump []),
          [''last_updated.txt''] \<mapsto> File (PlainText ''2026-11-04'')]))"
proof -
  have "\<exists>files1.
          save_json_pool Map.empty [] = (Inr (sorted_products []), files1) \<and>
          write_last_updated_file_pool files1 \<lparr>year = 2026, month = 11, day = 4\<rparr> =
            (Inr (),
             [[''data''] \<mapsto> Dir,
              [''data'', ''products.json''] \<mapsto> File (JsonDump (sorted_products [])),
              [''data'', ''last_updated.txt''] \<mapsto>
                File (PlainText (strftime_ymd \<lparr>year = 2026, month = 11, day = 4\<rparr>))])"
    using output_location [where files = Map.empty and products = "[]"
        and today = "\<lparr>year = 2026, month = 11, day = 4\<rparr>"]
    by simp
  moreover have "save_json_pool Map.empty [] =
     (Inr [], [[''data''] \<mapsto> Dir, [''data'', ''products.json''] \<mapsto> File (JsonDump [])])"
    by (simp add: save_json_pool_def makedirs_def open_w_def lookup_def sorted_products_def)
  moreover have "strftime_ymd \<lparr>year = 2026, month = 11, day = 4\<rparr> = ''2026-11-04''"
    by (simp add: strftime_ymd_def zero_pad_def nat_digits.simps digit_char_def)
  moreover have "save_json_pool [[''data''] \<mapsto> File (PlainText [])] [] =
     (Inl FileExistsError, [[''data''] \<mapsto> File (PlainText [])])"
    using output_location [where files = "[[''data''] \<mapsto> File (PlainText [])]"
        and d = "PlainText []" and products = "[]"]
    by simp
  moreover have "\<exists>files1.
          save_json Map.empty [] = (Inr (sorted_products []), files1) \<and>
          write_last_updated_file files1 \<lparr>year = 2026, month = 11, day = 4\<rparr> =
            (Inr (),
             [[''products.json''] \<mapsto> File (JsonDump (sorted_products [])),
              [''last_updated.txt''] \<mapsto>
                File (PlainText (strftime_ymd \<lparr>year = 2026, month = 11, day = 4\<rparr>))])"
    using output_location [where files = Map.empty and products = "[]"
        and today = "\<lparr>year = 2026, month = 11, day = 4\<rparr>"]
    by simp
  ultimately show ?thesis by (auto simp: sorted_products_def)
qed

text \<open>
  Claim C8 as stated puts both output files into a location distinct from the working
  directory. The sequential version, run in an empty working directory, leaves the two
  files in the working directory itself and no directory.
\<close>

theorem output_location_counterexample:
  "save_json Map.empty [] = (Inr [], [[''products.json''] \<mapsto> File (JsonDump [])]) \<and>
   write_last_updated_file [[''products.json''] \<mapsto> File (JsonDump [])]
     \<lparr>year = 2026, month = 11, day = 4\<rparr> =
     (Inr (),
      [[''products.json''] \<mapsto> File (JsonDump []),
       [''last_updated.txt''] \<mapsto> File (PlainText ''2026-11-04'')])"
  by (simp add: save_json_def write_last_updated_file_def open_w_def lookup_def
      sorted_products_def strftime_ymd_def zero_pad_def nat_digits.simps digit_char_def)

section \<open>The catalog\<close>

lemma strip_fixed:
  assumes "t = [] \<or> \<not> is_space (hd t) \<and> \<not> is_space (last t)"
  shows "strip t = t"
proof (cases t)
  case Nil
  then show ?thesis by (simp add: strip_def)
next
  case (Cons c cs)
  with assms have h: "\<not> is_space (hd t)" and l: "\<not> is_space (last t)" by auto
  from Cons h have 1: "dropWhile is_space t = t" by simp
  from Cons have "t \<noteq> []" by simp
  then obtain ys y where t: "t = ys @ [y]" by (metis rev_exhaust)
  with l have "\<not> is_space y" by simp
  then have "dropWhile is_space (rev t) = rev t" by (simp add: t)
  with 1 show ?thesis by (simp add: strip_def)
qed

lemma strip_idem: "strip (strip s) = strip s"
  using strip_ends [of s] by (intro strip_fixed) blast

lemma first_seen_Nil: "first_seen [] = []"
  by (simp add: first_seen_def)

lemma remdups_snoc: "remdups (xs @ [x]) = filter (\<lambda>y. y \<noteq> x) (remdups xs) @ [x]"
  by (induction xs) auto

lemma first_seen_Cons: "first_seen (x # xs) = x # first_seen (filter (\<lambda>y. y \<noteq> x) xs)"
  by (simp add: first_seen_def remdups_snoc rev_filter remdups_filter)

lemma distinct_first_seen: "distinct (first_seen xs)"
  by (simp add: first_seen_def)

lemma set_first_seen: "set (first_seen xs) = set xs"
  by (simp add: first_seen_def)

lemma merge_items_fold:
  "merge_items cat items =
     (if NotDict \<in> set items then Inl AttributeError else Inr (foldl add_key cat (keys_of items)))"
proof (induction items arbitrary: cat)
  case Nil
  show ?case by (simp add: keys_of_def)
next
  case (Cons it items)
  show ?case
  proof (cases it)
    case (Dict d)
    have "merge_items cat (Dict d # items) = merge_items (add_key cat (item_key d)) items"
      by (simp add: add_key_def Let_def)
    with Dict show ?thesis by (simp add: Cons keys_of_def)
  next
    case NotDict
    then show ?thesis by simp
  qed
qed

lemma merge_terms_fold:
  "merge_terms cat results =
     (if NotDict \<in> set (concat results) then Inl AttributeError
      else Inr (foldl add_key cat (keys_of (concat results))))"
proof (induction results arbitrary: cat)
  case Nil
  show ?case by (simp add: keys_of_def)
next
  case (Cons items rest)
  show ?case
    by (simp add: Cons merge_items_fold keys_of_def)
qed

lemma foldl_add_key_keys:
  "map fst (foldl add_key cat ks) =
     map fst cat @ first_seen (filter (\<lambda>k. valid_key k \<and> k \<notin> set (map fst cat)) ks)"
proof (induction ks arbitrary: cat)
  case Nil
  show ?case by (simp add: first_seen_Nil)
next
  case (Cons k ks)
  show ?case
  proof (cases "valid_key k \<and> k \<notin> set (map fst cat)")
    case True
    then have a: "add_key cat k = cat @ [(k, \<lparr>entry_id = fst k, entry_text = snd k\<rparr>)]"
      by (simp add: add_key_def valid_key_def)
    have f: "filter (\<lambda>y. y \<noteq> k) (filter (\<lambda>k. valid_key k \<and> k \<notin> set (map fst cat)) ks)
          = filter (\<lambda>x. valid_key x \<and> x \<notin> set (map fst (add_key cat k))) ks"
      unfolding a by (auto intro: filter_cong)
    have "map fst (foldl add_key cat (k # ks)) =
          map fst (add_key cat k) @
            first_seen (filter (\<lambda>x. valid_key x \<and> x \<notin> set (map fst (add_key cat k))) ks)"
      by (simp add: Cons)
    also have "\<dots> = map fst cat @ k #
            first_seen (filter (\<lambda>y. y \<noteq> k)
               (filter (\<lambda>k. valid_key k \<and> k \<notin> set (map fst cat)) ks))"
      by (simp only: f) (simp add: a)
    also have "\<dots> = map fst cat @
            first_seen (filter (\<lambda>k. valid_key k \<and> k \<notin> set (map fst cat)) (k # ks))"
    proof -
      have "filter (\<lambda>k. valid_key k \<and> k \<notin> set (map fst cat)) (k # ks)
            = k # filter (\<lambda>k. valid_key k \<and> k \<notin> set (map fst cat)) ks"
        using True by simp
      then show ?thesis by (simp only: first_seen_Cons)
    qed
    finally show ?thesis .
  next
    case False
    then have a: "add_key cat k = cat" by (auto simp: add_key_def valid_key_def)
    with False show ?thesis by (auto simp: Cons)
  qed
qed

lemma add_key_entries:
  assumes "\<forall>p\<in>set cat. snd p = \<lparr>entry_id = fst (fst p), entry_text = snd (fst p)\<rparr>"
  shows "\<forall>p\<in>set (add_key cat k). snd p = \<lparr>entry_id = fst (fst p), entry_text = snd (fst p)\<rparr>"
  using assms by (simp add: add_key_def)

lemma foldl_add_key_entries:
  assumes "\<forall>p\<in>set cat. snd p = \<lparr>entry_id = fst (fst p), entry_text = snd (fst p)\<rparr>"
  shows "\<forall>p\<in>set (foldl add_key cat ks).
           snd p = \<lparr>entry_id = fst (fst p), entry_text = snd (fst p)\<rparr>"
  using assms
proof (induction ks arbitrary: cat)
  case Nil
  then show ?case by simp
next
  case (Cons k ks)
  from Cons.prems have "\<forall>p\<in>set (add_key cat k).
      snd p = \<lparr>entry_id = fst (fst p), entry_text = snd (fst p)\<rparr>"
    by (rule add_key_entries)
  then show ?case using Cons.IH by simp
qed

lemma merged_catalog:
  assumes "merge_terms [] results = Inr cat"
  shows "map entry_key (map snd cat) = first_seen (filter valid_key (keys_of (concat results)))"
    and "map fst cat = map entry_key (map snd cat)"
proof -
  from assms have cat: "cat = foldl add_key [] (keys_of (concat results))"
    by (simp add: merge_terms_fold split: if_splits)
  have "\<forall>p\<in>set cat. snd p = \<lparr>entry_id = fst (fst p), entry_text = snd (fst p)\<rparr>"
    unfolding cat by (rule foldl_add_key_entries) simp
  then have "\<forall>p\<in>set cat. entry_key (snd p) = fst p" by (simp add: entry_key_def)
  then show 2: "map fst cat = map entry_key (map snd cat)" by (induction cat) auto
  have "map fst cat = first_seen (filter valid_key (keys_of (concat results)))"
    unfolding cat by (simp add: foldl_add_key_keys)
  with 2 show "map entry_key (map snd cat)
      = first_seen (filter valid_key (keys_of (concat results)))" by simp
qed

lemma item_key_trimmed: "strip (fst (item_key d)) = fst (item_key d) \<and> strip (snd (item_key d)) = snd (item_key d)"
  by (simp add: item_key_def strip_idem)

lemma keys_of_trimmed: "k \<in> set (keys_of items) \<Longrightarrow> strip (fst k) = fst k \<and> strip (snd k) = snd k"
  by (auto simp: keys_of_def item_key_trimmed split: item.splits)

lemma collect_loop_merge:
  "fst (collect_loop srv ts cat s) = merge_terms cat (term_results srv ts s)"
proof (induction ts arbitrary: cat s)
  case Nil
  show ?case by (simp add: term_results_def)
next
  case (Cons t ts)
  obtain items s1 where f: "fetch_products_for_term srv s t = (items, s1)" by force
  obtain rs s2 where r: "run_tasks (fetch_products_for_term srv) ts s1 = (rs, s2)" by force
  have tr: "term_results srv (t # ts) s = items # term_results srv ts s1"
    by (simp add: term_results_def f r)
  show ?case
  proof (cases "merge_items cat items")
    case (Inl e)
    then show ?thesis by (simp add: f tr)
  next
    case (Inr cat')
    then show ?thesis by (simp add: f tr Cons)
  qed
qed

text \<open>
  Claim C2. Whatever the per-term results, in whatever order they are merged: when the
  merge returns a catalog, the keys (trimmed id, trimmed text) of its entries are the
  valid keys of all items of all terms, each once, in the order of their first
  occurrence, so a later occurrence of a key adds nothing; no entry has an empty id or
  an empty text, and ids and texts are trimmed. The merge returns a catalog whenever every
  item is a dict. The sequential collector returns the merge of the results of the terms
  in term order, the collector with the pool the merge of the results in completion
  order.
\<close>

theorem catalog_deduplicated:
  "(merge_terms [] results = Inr cat \<longrightarrow>
      map entry_key (map snd cat) = first_seen (filter valid_key (keys_of (concat results))) \<and>
      distinct (map entry_key (map snd cat)) \<and>
      (\<forall>e\<in>set (map snd cat).
         entry_id e \<noteq> [] \<and> entry_text e \<noteq> [] \<and>
         strip (entry_id e) = entry_id e \<and> strip (entry_text e) = entry_text e)) \<and>
   (NotDict \<notin> set (concat results) \<longrightarrow> (\<exists>cat'. merge_terms [] results = Inr cat')) \<and>
   fst (collect_full_catalog srv s) =
     map_sum id (map snd) (merge_terms [] (term_results srv terms s)) \<and>
   fst (collect_full_catalog_pool p srv s) =
     map_sum id (map snd)
       (merge_terms [] (map snd (fst (pool_map p (fetch_products_for_term_blocking srv) terms s))))"
proof (intro conjI impI)
  assume m: "merge_terms [] results = Inr cat"
  let ?ks = "filter valid_key (keys_of (concat results))"
  show k: "map entry_key (map snd cat) = first_seen ?ks"
    using m by (rule merged_catalog)
  then show "distinct (map entry_key (map snd cat))"
    by (simp only: distinct_first_seen)
  show "\<forall>e\<in>set (map snd cat).
         entry_id e \<noteq> [] \<and> entry_text e \<noteq> [] \<and>
         strip (entry_id e) = entry_id e \<and> strip (entry_text e) = entry_text e"
  proof
    fix e assume "e \<in> set (map snd cat)"
    then have "entry_key e \<in> set (map entry_key (map snd cat))" by auto
    then have "entry_key e \<in> set ?ks" by (simp only: k set_first_seen)
    then have "valid_key (entry_key e)" and "entry_key e \<in> set (keys_of (concat results))"
      by simp_all
    then show "entry_id e \<noteq> [] \<and> entry_text e \<noteq> [] \<and>
         strip (entry_id e) = entry_id e \<and> strip (entry_text e) = entry_text e"
      using keys_of_trimmed [of "entry_key e" "concat results"]
      by (simp add: valid_key_def entry_key_def)
  qed
next
  assume "NotDict \<notin> set (concat results)"
  then show "\<exists>cat'. merge_terms [] results = Inr cat'"
    by (simp add: merge_terms_fold)
next
  have "fst (collect_loop srv terms [] s) = merge_terms [] (term_results srv terms s)"
    by (rule collect_loop_merge)
  then show "fst (collect_full_catalog srv s) =
     map_sum id (map snd) (merge_terms [] (term_results srv terms s))"
    by (cases "collect_loop srv terms [] s")
       (auto simp: collect_full_catalog_def split: sum.splits)
next
  show "fst (collect_full_catalog_pool p srv s) =
     map_sum id (map snd)
       (merge_terms [] (map snd (fst (pool_map p (fetch_products_for_term_blocking srv) terms s))))"
    by (auto simp: collect_full_catalog_pool_def split: prod.splits sum.splits)
qed

theorem catalog_deduplicated_witness:
  "merge_terms [] [[widget, nameless], [gadget, widget]] =
     Inr [((''7'', ''ABC / Widget''), \<lparr>entry_id = ''7'', entry_text = ''ABC / Widget''\<rparr>),
          ((''9'', ''G''), \<lparr>entry_id = ''9'', entry_text = ''G''\<rparr>)] \<and>
   first_seen (filter valid_key (keys_of [widget, nameless, gadget, widget])) =
     [(''7'', ''ABC / Widget''), (''9'', ''G'')]"
proof -
  let ?cat = "[((''7'', ''ABC / Widget''), \<lparr>entry_id = ''7'', entry_text = ''ABC / Widget''\<rparr>),
          ((''9'', ''G''), \<lparr>entry_id = ''9'', entry_text = ''G''\<rparr>)]"
  have m: "merge_terms [] [[widget, nameless], [gadget, widget]] = Inr ?cat"
    by (simp add: widget_def nameless_def gadget_def item_key_def dict_get_def py_str_def
        strip_def is_space_def nat_digits.simps digit_char_def)
  with catalog_deduplicated [where results = "[[widget, nameless], [gadget, widget]]"
      and cat = ?cat]
  have "map entry_key (map snd ?cat) =
      first_seen (filter valid_key (keys_of (concat [[widget, nameless], [gadget, widget]])))"
    by blast
  with m show ?thesis by (simp add: entry_key_def)
qed

section \<open>Price enrichment\<close>

lemma price_request_inj: "price_request a = price_request b \<Longrightarrow> a = b"
  by (simp add: price_request_def)

lemma fetch_price_post:
  "fetch_price srv s pid =
     (price_of (fst (srv (world s) (price_request pid))),
      \<lparr>world = snd (srv (world s) (price_request pid)),
       exchanges = exchanges s @ [(price_request pid, fst (srv (world s) (price_request pid)))]\<rparr>)"
  by (cases "srv (world s) (price_request pid)")
     (auto simp: fetch_price_def post_def price_of_def price_request_def Let_def
       split: post_result.splits)

lemma enrich_loop_Cons_cached:
  assumes "id_to_price (entry_id e) = Some cached"
  shows "enrich_loop srv (e # rest) id_to_price enriched s =
           enrich_loop srv rest id_to_price (enriched @ [make_product e cached]) s"
  using assms by (simp add: make_product_def Let_def split: prod.splits)

lemma enrich_loop_Cons_fetch:
  assumes "id_to_price (entry_id e) = None"
    and "fetch_price srv s (entry_id e) = (fetched, s1)"
  shows "enrich_loop srv (e # rest) id_to_price enriched s =
           enrich_loop srv rest (id_to_price(entry_id e \<mapsto> fetched))
             (enriched @ [make_product e fetched]) s1"
  using assms by (simp add: make_product_def Let_def split: prod.splits)

lemma enrich_loop_inv:
  assumes "enrich_loop srv cat cache enr s = ((enr', cache'), s')"
  shows "\<exists>new. exchanges s' = exchanges s @ new \<and>
     map fst new =
       map price_request (first_seen (filter (\<lambda>pid. cache pid = None) (map entry_id cat))) \<and>
     (\<forall>(rq, r)\<in>set new. \<forall>pid. rq = price_request pid \<longrightarrow> cache' pid = Some (price_of r)) \<and>
     cache \<subseteq>\<^sub>m cache' \<and>
     enr' = enr @ map (\<lambda>e. make_product e (dict_get cache' (entry_id e) [])) cat"
  using assms
proof (induction cat arbitrary: cache enr s)
  case Nil
  then show ?case by (simp add: first_seen_Nil)
next
  case (Cons e rest)
  let ?pid = "entry_id e"
  show ?case
  proof (cases "cache ?pid")
    case (Some cached)
    with Cons.prems
    have "enrich_loop srv rest cache (enr @ [make_product e cached]) s = ((enr', cache'), s')"
      by (simp del: enrich_loop.simps add: enrich_loop_Cons_cached)
    from Cons.IH [OF this] obtain new where
      ex: "exchanges s' = exchanges s @ new" and
      rq: "map fst new =
        map price_request (first_seen (filter (\<lambda>pid. cache pid = None) (map entry_id rest)))" and
      rs: "\<forall>(rq, r)\<in>set new. \<forall>pid. rq = price_request pid \<longrightarrow> cache' pid = Some (price_of r)" and
      le: "cache \<subseteq>\<^sub>m cache'" and
      en: "enr' = (enr @ [make_product e cached])
             @ map (\<lambda>e. make_product e (dict_get cache' (entry_id e) [])) rest"
      by blast
    from le Some have "cache' ?pid = Some cached"
      by (metis domI map_le_def)
    then have "dict_get cache' ?pid [] = cached" by (simp add: dict_get_def)
    with en have "enr' = enr @ map (\<lambda>e. make_product e (dict_get cache' (entry_id e) [])) (e # rest)"
      by simp
    moreover from Some rq have "map fst new =
        map price_request (first_seen (filter (\<lambda>pid. cache pid = None) (map entry_id (e # rest))))"
      by simp
    ultimately show ?thesis using ex rs le by blast
  next
    case None
    obtain fetched s1 where f: "fetch_price srv s ?pid = (fetched, s1)" by force
    let ?r = "fst (srv (world s) (price_request ?pid))"
    from f have fetched: "fetched = price_of ?r"
      and s1: "exchanges s1 = exchanges s @ [(price_request ?pid, ?r)]"
      by (auto simp: fetch_price_post)
    let ?cache1 = "cache(?pid \<mapsto> fetched)"
    from Cons.prems None f
    have "enrich_loop srv rest ?cache1 (enr @ [make_product e fetched]) s1 = ((enr', cache'), s')"
      by (simp del: enrich_loop.simps add: enrich_loop_Cons_fetch)
    from Cons.IH [OF this] obtain new where
      ex: "exchanges s' = exchanges s1 @ new" and
      rq: "map fst new =
        map price_request (first_seen (filter (\<lambda>pid. ?cache1 pid = None) (map entry_id rest)))" and
      rs: "\<forall>(rq, r)\<in>set new. \<forall>pid. rq = price_request pid \<longrightarrow> cache' pid = Some (price_of r)" and
      le: "?cache1 \<subseteq>\<^sub>m cache'" and
      en: "enr' = (enr @ [make_product e fetched])
             @ map (\<lambda>e. make_product e (dict_get cache' (entry_id e) [])) rest"
      by blast
    let ?new = "(price_request ?pid, ?r) # new"
    from le have c': "cache' ?pid = Some fetched"
      by (metis domI fun_upd_same map_le_def)
    then have "dict_get cache' ?pid [] = fetched" by (simp add: dict_get_def)
    with en have 1: "enr' = enr @ map (\<lambda>e. make_product e (dict_get cache' (entry_id e) [])) (e # rest)"
      by simp
    have "filter (\<lambda>pid. ?cache1 pid = None) (map entry_id rest)
        = filter (\<lambda>y. y \<noteq> ?pid) (filter (\<lambda>pid. cache pid = None) (map entry_id rest))"
      by (auto intro: filter_cong)
    with None rq have 2: "map fst ?new =
        map price_request (first_seen (filter (\<lambda>pid. cache pid = None) (map entry_id (e # rest))))"
      by (simp add: first_seen_Cons)
    have 3: "\<forall>(rq, r)\<in>set ?new. \<forall>pid. rq = price_request pid \<longrightarrow> cache' pid = Some (price_of r)"
      using rs c' fetched by (auto dest: price_request_inj)
    have 4: "cache \<subseteq>\<^sub>m cache'"
      using le None by (auto simp: map_le_def dom_def split: if_splits)
    have 5: "exchanges s' = exchanges s @ ?new" using ex s1 by simp
    from 1 2 3 4 5 show ?thesis by blast
  qed
qed

lemma enrich_loop_enriched_by:
  assumes "enrich_loop srv cat Map.empty [] s = ((enriched, id_to_price), s')"
  shows "\<exists>new. exchanges s' = exchanges s @ new \<and>
           enriched_by cat new (first_seen (map entry_id cat)) id_to_price enriched"
  using enrich_loop_inv [OF assms] by (auto simp: enriched_by_def)

lemma unique_ids_loop_ids:
  "snd (unique_ids_loop cat cache ids) =
     ids @ first_seen (filter (\<lambda>pid. cache pid = None) (map entry_id cat))"
proof (induction cat arbitrary: cache ids)
  case Nil
  show ?case by (simp add: first_seen_Nil)
next
  case (Cons e rest)
  show ?case
  proof (cases "cache (entry_id e)")
    case None
    have "filter (\<lambda>pid. (cache(entry_id e \<mapsto> [])) pid = None) (map entry_id rest)
        = filter (\<lambda>y. y \<noteq> entry_id e) (filter (\<lambda>pid. cache pid = None) (map entry_id rest))"
      by (auto intro: filter_cong)
    with None show ?thesis by (simp add: Cons first_seen_Cons Let_def)
  next
    case (Some a)
    then show ?thesis by (simp add: Cons Let_def)
  qed
qed

lemma run_tasks_fetch_price:
  assumes "run_tasks (fetch_price srv) order s = (results, s')"
  shows "\<exists>rs. length rs = length order \<and>
           exchanges s' = exchanges s @ zip (map price_request order) rs \<and>
           results = zip order (map price_of rs)"
  using assms
proof (induction order arbitrary: s results)
  case Nil
  then show ?case by simp
next
  case (Cons pid order)
  let ?r = "fst (srv (world s) (price_request pid))"
  obtain s1 where f: "fetch_price srv s pid = (price_of ?r, s1)"
    and s1: "exchanges s1 = exchanges s @ [(price_request pid, ?r)]"
    by (simp add: fetch_price_post)
  obtain rest where r: "run_tasks (fetch_price srv) order s1 = (rest, s')"
    and res: "results = (pid, price_of ?r) # rest"
    using Cons.prems f by (auto split: prod.splits)
  from Cons.IH [OF r] obtain rs where
    "length rs = length order" "exchanges s' = exchanges s1 @ zip (map price_request order) rs"
    "rest = zip order (map price_of rs)"
    by blast
  with s1 res have "length (?r # rs) = length (pid # order) \<and>
           exchanges s' = exchanges s @ zip (map price_request (pid # order)) (?r # rs) \<and>
           results = zip (pid # order) (map price_of (?r # rs))"
    by simp
  then show ?case by blast
qed

lemma as_completed_all:
  assumes "set order \<subseteq> fst ` set results"
  shows "as_completed results order = map (\<lambda>a. (a, the (map_of results a))) order"
proof -
  have "\<forall>a\<in>set order. map_of results a \<noteq> None"
    using assms by (auto simp: map_of_eq_None_iff)
  then show ?thesis
    unfolding as_completed_def map_filter_def
    by (induction order) auto
qed

lemma store_prices_lookup:
  assumes "distinct (map fst completed)"
  shows "store_prices completed cache pid =
           (case map_of completed pid of None \<Rightarrow> cache pid | Some r \<Rightarrow> Some r)"
  using assms
proof (induction completed arbitrary: cache)
  case Nil
  show ?case by simp
next
  case (Cons c completed)
  obtain a r where c: "c = (a, r)" by (cases c)
  from Cons.prems c have "map_of completed a = None"
    by (simp add: map_of_eq_None_iff)
  with Cons c show ?case by (auto split: option.splits)
qed

lemma build_enriched_map:
  "build_enriched cat cache enr =
     enr @ map (\<lambda>e. make_product e (dict_get cache (entry_id e) [])) cat"
  by (induction cat arbitrary: enr) (simp_all add: make_product_def Let_def split: prod.splits)

lemma fair_orders:
  assumes "fair p" and "distinct tasks"
  shows "distinct (run_order p tasks)" "set (run_order p tasks) = set tasks"
    "distinct (done_order p tasks)" "set (done_order p tasks) = set tasks"
proof -
  from assms(1) have r: "mset (run_order p tasks) = mset tasks"
    and d: "mset (done_order p tasks) = mset tasks"
    by (simp_all add: fair_def)
  from r assms(2) show "distinct (run_order p tasks)" by (metis mset_eq_imp_distinct_iff)
  from d assms(2) show "distinct (done_order p tasks)" by (metis mset_eq_imp_distinct_iff)
  from r show "set (run_order p tasks) = set tasks" by (rule mset_eq_setD)
  from d show "set (done_order p tasks) = set tasks" by (rule mset_eq_setD)
qed

lemma enrich_pool_enriched_by:
  assumes fair: "fair p"
    and run: "enrich_pool p srv s cat = ((enriched, id_to_price), s')"
  shows "\<exists>new. exchanges s' = exchanges s @ new \<and>
           enriched_by cat new (run_order p (first_seen (map entry_id cat))) id_to_price enriched"
proof -
  let ?uids = "first_seen (map entry_id cat)"
  let ?order = "run_order p ?uids"
  let ?done = "done_order p ?uids"
  obtain placeholders where u: "unique_ids_loop cat Map.empty [] = (placeholders, ?uids)"
    using unique_ids_loop_ids [of cat Map.empty "[]"]
    by (cases "unique_ids_loop cat Map.empty []") simp
  obtain results s1 where rt: "run_tasks (fetch_price srv) ?order s = (results, s1)" by force
  let ?completed = "as_completed results ?done"
  from run u rt have s': "s' = s1"
    and cache: "id_to_price = store_prices ?completed placeholders"
    and enr: "enriched = build_enriched cat id_to_price []"
    by (auto simp: enrich_pool_def pool_map_def fetch_price_blocking_def Let_def)
  from run_tasks_fetch_price [OF rt] obtain rs where
    len: "length rs = length ?order" and
    ex: "exchanges s1 = exchanges s @ zip (map price_request ?order) rs" and
    res: "results = zip ?order (map price_of rs)"
    by blast
  let ?new = "zip (map price_request ?order) rs"
  have d: "distinct ?order" "set ?order = set ?uids" "distinct ?done" "set ?done = set ?uids"
    using fair_orders [OF fair distinct_first_seen] by blast+
  have fst_res: "map fst results = ?order" using len by (simp add: res)
  then have "set ?done \<subseteq> fst ` set results" using d by (metis set_map subset_refl)
  then have comp: "?completed = map (\<lambda>a. (a, the (map_of results a))) ?done"
    by (rule as_completed_all)
  then have dc: "distinct (map fst ?completed)" using d by (simp add: comp_def)
  have look: "id_to_price pid = Some (price_of r)"
    if "(price_request pid, r) \<in> set ?new" for pid r
  proof -
    from that obtain i where i: "i < length ?order" "price_request (?order ! i) = price_request pid"
      "rs ! i = r"
      using len by (auto simp: in_set_zip)
    then have pid: "?order ! i = pid" by (auto dest: price_request_inj)
    with i len have "(pid, price_of r) \<in> set results"
      unfolding res by (auto simp: in_set_zip intro!: exI [of _ i])
    with d(1) fst_res have m: "map_of results pid = Some (price_of r)"
      by (metis map_of_is_SomeI)
    from pid i d have "pid \<in> set ?done" by (metis nth_mem)
    then have "map_of ?completed pid = Some (price_of r)"
      unfolding comp using m by (simp add: map_of_map_restrict)
    then show ?thesis
      by (simp add: cache store_prices_lookup [OF dc])
  qed
  have "enriched_by cat ?new ?order id_to_price enriched"
    unfolding enriched_by_def
    using len look by (auto simp: enr build_enriched_map)
  with ex s' show ?thesis by blast
qed

lemma enriched_by_length:
  assumes "enriched_by cat new ids cache enriched"
  shows "length enriched = length cat"
  using assms by (simp add: enriched_by_def)

lemma enriched_by_nth:
  assumes "enriched_by cat new ids cache enriched" and "i < length cat"
  shows "enriched ! i = make_product (cat ! i) (dict_get cache (entry_id (cat ! i)) [])"
  using assms by (simp add: enriched_by_def)

lemma enriched_by_cached:
  assumes "enriched_by cat new ids cache enriched" and "(price_request pid, r) \<in> set new"
  shows "cache pid = Some (price_of r)"
  using assms by (auto simp: enriched_by_def)

lemma enriched_by_own:
  assumes eb: "enriched_by cat new ids cache enriched" and ids: "set ids = entry_id ` set cat"
    and i: "i < length cat"
  shows "\<exists>r. (price_request (entry_id (cat ! i)), r) \<in> set new \<and>
              marketing_price (enriched ! i) = price_of r"
proof -
  let ?pid = "entry_id (cat ! i)"
  from i ids have "?pid \<in> set ids" by auto
  then have "price_request ?pid \<in> set (map fst new)"
    using eb by (simp add: enriched_by_def)
  then obtain r where r: "(price_request ?pid, r) \<in> set new" by auto
  with eb have "cache ?pid = Some (price_of r)" by (rule enriched_by_cached)
  then have "marketing_price (enriched ! i) = price_of r"
    using enriched_by_nth [OF eb i] by (simp add: make_product_def dict_get_def)
  with r show ?thesis by blast
qed

lemma price_failed_empty: "price_failed r \<Longrightarrow> price_of r = []"
  by (auto simp: price_failed_def price_of_def split: post_result.splits)

lemma enrichers_enriched_by:
  assumes "run = enrich_loop srv catalog Map.empty [] s \<or>
           fair p \<and> run = enrich_pool p srv s catalog"
  shows "\<exists>new ids. exchanges (snd run) = exchanges s @ new \<and>
           distinct ids \<and> set ids = entry_id ` set catalog \<and>
           enriched_by catalog new ids (snd (fst run)) (fst (fst run))"
  using assms
proof
  assume r: "run = enrich_loop srv catalog Map.empty [] s"
  then have "enrich_loop srv catalog Map.empty [] s = ((fst (fst run), snd (fst run)), snd run)"
    by simp
  from enrich_loop_enriched_by [OF this] obtain new where
    "exchanges (snd run) = exchanges s @ new"
    "enriched_by catalog new (first_seen (map entry_id catalog)) (snd (fst run)) (fst (fst run))"
    by blast
  moreover have "distinct (first_seen (map entry_id catalog))"
    "set (first_seen (map entry_id catalog)) = entry_id ` set catalog"
    by (simp_all add: distinct_first_seen set_first_seen)
  ultimately show ?thesis by blast
next
  assume "fair p \<and> run = enrich_pool p srv s catalog"
  then have fair: "fair p"
    and "enrich_pool p srv s catalog = ((fst (fst run), snd (fst run)), snd run)"
    by simp_all
  from enrich_pool_enriched_by [OF this] obtain new where
    "exchanges (snd run) = exchanges s @ new"
    "enriched_by catalog new (run_order p (first_seen (map entry_id catalog)))
       (snd (fst run)) (fst (fst run))"
    by blast
  moreover have "distinct (run_order p (first_seen (map entry_id catalog)))"
    "set (run_order p (first_seen (map entry_id catalog))) = entry_id ` set catalog"
    using fair_orders [OF fair distinct_first_seen, of "map entry_id catalog"]
    by (simp_all add: set_first_seen)
  ultimately show ?thesis by blast
qed

lemma enrich_with_prices_loop:
  "enrich_with_prices srv s catalog =
     (fst (fst (enrich_loop srv catalog Map.empty [] s)),
      snd (enrich_loop srv catalog Map.empty [] s))"
  by (simp add: enrich_with_prices_def split: prod.splits)

lemma enrich_with_prices_pool_run:
  "enrich_with_prices_pool p srv s catalog =
     (fst (fst (enrich_pool p srv s catalog)), snd (enrich_pool p srv s catalog))"
  by (simp add: enrich_with_prices_pool_def split: prod.splits)

lemma fair_in_order: "fair in_order"
  by (simp add: fair_def in_order_def)

lemma fair_reversed: "fair reversed"
  by (simp add: fair_def reversed_def)



text \<open>
  Claim C7. In both enrichers, the pool under any fair schedule: when the fetch of the
  price of an id raises or returns a status other than 200, the cache holds the empty
  string for that id and every record of an entry with that id has the empty string as
  its price. The enrichment is not cut short: there is one record per catalog entry, in
  catalog order, with the code and name parsed from the entry's text and with the price
  that the outcome of the fetch of its own id resolves to.
\<close>

theorem failed_price_is_empty:
  assumes "run = enrich_loop srv catalog Map.empty [] s \<or>
           fair p \<and> run = enrich_pool p srv s catalog"
    and "enriched = fst (fst run)" and "id_to_price = snd (fst run)"
    and "new = drop (length (exchanges s)) (exchanges (snd run))"
  shows "(\<forall>pid r. (price_request pid, r) \<in> set new \<and> price_failed r \<longrightarrow>
            id_to_price pid = Some [] \<and>
            (\<forall>i<length catalog. entry_id (catalog ! i) = pid \<longrightarrow>
               marketing_price (enriched ! i) = [])) \<and>
         length enriched = length catalog \<and>
         (\<forall>i<length catalog.
            (product_code (enriched ! i), product_name (enriched ! i))
              = parse_code_and_name (entry_text (catalog ! i)) \<and>
            (\<exists>r. (price_request (entry_id (catalog ! i)), r) \<in> set new \<and>
                 marketing_price (enriched ! i) = price_of r)) \<and>
         fst (enrich_with_prices srv s catalog)
           = fst (fst (enrich_loop srv catalog Map.empty [] s)) \<and>
         fst (enrich_with_prices_pool p srv s catalog) = fst (fst (enrich_pool p srv s catalog))"
proof -
  from enrichers_enriched_by [OF assms(1)] obtain new' ids where
    ex: "exchanges (snd run) = exchanges s @ new'" and
    ids: "distinct ids" "set ids = entry_id ` set catalog" and
    eb': "enriched_by catalog new' ids (snd (fst run)) (fst (fst run))"
    by blast
  from ex assms(4) have "new' = new" by simp
  with eb' assms have eb: "enriched_by catalog new ids id_to_price enriched" by simp
  have 1: "id_to_price pid = Some [] \<and>
            (\<forall>i<length catalog. entry_id (catalog ! i) = pid \<longrightarrow>
               marketing_price (enriched ! i) = [])"
    if "(price_request pid, r) \<in> set new \<and> price_failed r" for pid r
  proof -
    from that have c: "id_to_price pid = Some []"
      using enriched_by_cached [OF eb, of pid r] by (simp add: price_failed_empty)
    then show ?thesis
      using enriched_by_nth [OF eb] by (auto simp: make_product_def dict_get_def)
  qed
  have 2: "length enriched = length catalog" using eb by (rule enriched_by_length)
  have 3: "(product_code (enriched ! i), product_name (enriched ! i))
              = parse_code_and_name (entry_text (catalog ! i)) \<and>
            (\<exists>r. (price_request (entry_id (catalog ! i)), r) \<in> set new \<and>
                 marketing_price (enriched ! i) = price_of r)"
    if "i < length catalog" for i
    using enriched_by_nth [OF eb that] enriched_by_own [OF eb ids(2) that]
    by (simp add: make_product_def)
  from 1 2 3 show ?thesis
    by (simp add: enrich_with_prices_loop enrich_with_prices_pool_run)
qed

theorem failed_price_is_empty_witness:
  "(price_request ''42'', Raised) \<in>
     set (exchanges (snd (enrich_loop flaky_server failing_catalog Map.empty [] fresh_session))) \<and>
   price_failed Raised \<and>
   snd (fst (enrich_loop flaky_server failing_catalog Map.empty [] fresh_session)) ''42''
     = Some [] \<and>
   fst (fst (enrich_loop flaky_server failing_catalog Map.empty [] fresh_session)) =
     [\<lparr>product_name = ''X'', product_code = ''A'', marketing_price = []\<rparr>,
      \<lparr>product_name = ''Y'', product_code = ''B'', marketing_price = ''12.50''\<rparr>,
      \<lparr>product_name = ''Z'', product_code = ''Z'', marketing_price = []\<rparr>] \<and>
   length (fst (fst (enrich_pool reversed flaky_server fresh_session failing_catalog))) = 3"
proof -
  let ?run = "enrich_loop flaky_server failing_catalog Map.empty [] fresh_session"
  have a: "?run =
     (([\<lparr>product_name = ''X'', product_code = ''A'', marketing_price = []\<rparr>,
        \<lparr>product_name = ''Y'', product_code = ''B'', marketing_price = ''12.50''\<rparr>,
        \<lparr>product_name = ''Z'', product_code = ''Z'', marketing_price = []\<rparr>],
       [''42'' \<mapsto> [], ''7'' \<mapsto> ''12.50'', ''13'' \<mapsto> []]),
      \<lparr>world = (),
       exchanges =
         [(price_request ''42'', Raised),
          (price_request ''7'',
           Resp \<lparr>status_code = 200, body_text = '' 12.50 '', body_json = NotJson\<rparr>),
          (price_request ''13'',
           Resp \<lparr>status_code = 500, body_text = ''9.99'', body_json = NotJson\<rparr>)]\<rparr>)"
    by (simp add: failing_catalog_def flaky_server_def fresh_session_def fetch_price_def
        post_def price_request_def parse_code_and_name_def parse_parts_def strip_def
        is_space_def Let_def)
  have ex: "exchanges fresh_session = []" by (simp add: fresh_session_def)
  have new: "(price_request ''42'', Raised) \<in>
      set (drop (length (exchanges fresh_session)) (exchanges (snd ?run)))"
    by (simp add: a ex)
  have f: "price_failed Raised" by (simp add: price_failed_def)
  from failed_price_is_empty [where p = reversed and srv = flaky_server
      and s = fresh_session and catalog = failing_catalog and run = ?run, OF _ refl refl refl]
    new f
  have 1: "snd (fst ?run) ''42'' = Some []"
    by blast
  from failed_price_is_empty [where p = reversed and srv = flaky_server
      and s = fresh_session and catalog = failing_catalog
      and run = "enrich_pool reversed flaky_server fresh_session failing_catalog", OF _ refl refl refl]
    fair_reversed
  have 2: "length (fst (fst (enrich_pool reversed flaky_server fresh_session failing_catalog)))
      = length failing_catalog"
    by blast
  from new have "(price_request ''42'', Raised) \<in> set (exchanges (snd ?run))"
    by (simp add: ex)
  with a f 1 2 show ?thesis by (simp add: failing_catalog_def)
qed

section \<open>The two programs against a stateless server\<close>

lemma fetch_products_post:
  "fetch_products_for_term srv s t =
     (items_of (fst (srv (world s) (term_request t))),
      \<lparr>world = snd (srv (world s) (term_request t)),
       exchanges = exchanges s @ [(term_request t, fst (srv (world s) (term_request t)))]\<rparr>)"
  by (cases "srv (world s) (term_request t)")
     (auto simp: fetch_products_for_term_def post_def items_of_def term_request_def
       split: post_result.splits json_body.splits)

lemma run_tasks_stateless_terms:
  "fst (run_tasks (fetch_products_for_term (stateless a)) ts s) = map (\<lambda>t. (t, found a t)) ts"
proof (induction ts arbitrary: s)
  case Nil
  show ?case by simp
next
  case (Cons t ts)
  obtain s1 where f: "fetch_products_for_term (stateless a) s t = (found a t, s1)"
    by (simp add: fetch_products_post stateless_def found_def)
  obtain rs s2 where r: "run_tasks (fetch_products_for_term (stateless a)) ts s1 = (rs, s2)"
    by force
  with Cons [of s1] have "rs = map (\<lambda>t. (t, found a t)) ts" by simp
  with f r show ?case by simp
qed

lemma enrich_loop_answers:
  assumes "enrich_loop srv cat cache enr s = (res, s')"
  shows "\<exists>new. exchanges s' = exchanges s @ new \<and> (\<forall>(rq, r)\<in>set new. \<exists>w. r = fst (srv w rq))"
  using assms
proof (induction cat arbitrary: cache enr s)
  case Nil
  then show ?case by simp
next
  case (Cons e rest)
  show ?case
  proof (cases "cache (entry_id e)")
    case (Some cached)
    with Cons.prems
    have "enrich_loop srv rest cache (enr @ [make_product e cached]) s = (res, s')"
      by (simp del: enrich_loop.simps add: enrich_loop_Cons_cached)
    from Cons.IH [OF this] show ?thesis .
  next
    case None
    let ?rq = "price_request (entry_id e)"
    let ?r = "fst (srv (world s) ?rq)"
    obtain fetched s1 where f: "fetch_price srv s (entry_id e) = (fetched, s1)" by force
    then have s1: "exchanges s1 = exchanges s @ [(?rq, ?r)]"
      by (auto simp: fetch_price_post)
    from Cons.prems None f
    have "enrich_loop srv rest (cache(entry_id e \<mapsto> fetched)) (enr @ [make_product e fetched]) s1
            = (res, s')"
      by (simp del: enrich_loop.simps add: enrich_loop_Cons_fetch)
    from Cons.IH [OF this] obtain new where
      "exchanges s' = exchanges s1 @ new" "\<forall>(rq, r)\<in>set new. \<exists>w. r = fst (srv w rq)"
      by blast
    with s1 have "exchanges s' = exchanges s @ (?rq, ?r) # new \<and>
        (\<forall>(rq, r)\<in>set ((?rq, ?r) # new). \<exists>w. r = fst (srv w rq))"
      by auto
    then show ?thesis by blast
  qed
qed

lemma run_tasks_answers:
  assumes "run_tasks (fetch_price srv) order s = (results, s')"
  shows "\<exists>new. exchanges s' = exchanges s @ new \<and> (\<forall>(rq, r)\<in>set new. \<exists>w. r = fst (srv w rq))"
  using assms
proof (induction order arbitrary: s results)
  case Nil
  then show ?case by simp
next
  case (Cons pid order)
  let ?rq = "price_request pid"
  let ?r = "fst (srv (world s) ?rq)"
  obtain s1 where f: "fetch_price srv s pid = (price_of ?r, s1)"
    and s1: "exchanges s1 = exchanges s @ [(?rq, ?r)]"
    by (simp add: fetch_price_post)
  obtain rest where r: "run_tasks (fetch_price srv) order s1 = (rest, s')"
    using Cons.prems f by (auto split: prod.splits)
  from Cons.IH [OF r] obtain new where
    "exchanges s' = exchanges s1 @ new" "\<forall>(rq, r)\<in>set new. \<exists>w. r = fst (srv w rq)"
    by blast
  with s1 have "exchanges s' = exchanges s @ (?rq, ?r) # new \<and>
        (\<forall>(rq, r)\<in>set ((?rq, ?r) # new). \<exists>w. r = fst (srv w rq))"
    by auto
  then show ?case by blast
qed

lemma enrichers_answers:
  assumes "run = enrich_loop srv catalog Map.empty [] s \<or> run = enrich_pool p srv s catalog"
  shows "\<exists>new. exchanges (snd run) = exchanges s @ new \<and>
           (\<forall>(rq, r)\<in>set new. \<exists>w. r = fst (srv w rq))"
  using assms
proof
  assume "run = enrich_loop srv catalog Map.empty [] s"
  then have "enrich_loop srv catalog Map.empty [] s = (fst run, snd run)" by simp
  then show ?thesis by (rule enrich_loop_answers)
next
  assume r: "run = enrich_pool p srv s catalog"
  obtain results s1 where rt: "run_tasks (fetch_price srv)
      (run_order p (snd (unique_ids_loop catalog Map.empty []))) s = (results, s1)"
    by force
  with r have "snd run = s1"
    by (auto simp: enrich_pool_def pool_map_def fetch_price_blocking_def Let_def
        split: prod.splits)
  with run_tasks_answers [OF rt] show ?thesis by simp
qed

lemma enrichers_stateless:
  assumes "run = enrich_loop (stateless a) catalog Map.empty [] s \<or>
           fair p \<and> run = enrich_pool p (stateless a) s catalog"
  shows "fst (fst run) = map (priced a) catalog"
proof -
  from enrichers_enriched_by [OF assms] obtain new ids where
    ex: "exchanges (snd run) = exchanges s @ new" and
    ids: "set ids = entry_id ` set catalog" and
    eb: "enriched_by catalog new ids (snd (fst run)) (fst (fst run))"
    by blast
  from assms have "run = enrich_loop (stateless a) catalog Map.empty [] s \<or>
      run = enrich_pool p (stateless a) s catalog" by blast
  from enrichers_answers [OF this] ex
  have ans: "\<forall>(rq, r)\<in>set new. r = a rq"
    by (auto simp: stateless_def)
  have len: "length (fst (fst run)) = length catalog" using eb by (rule enriched_by_length)
  have "fst (fst run) ! i = map (priced a) catalog ! i" if i: "i < length catalog" for i
  proof -
    from enriched_by_own [OF eb ids i] obtain r where
      r: "(price_request (entry_id (catalog ! i)), r) \<in> set new"
      and p: "marketing_price (fst (fst run) ! i) = price_of r"
      by blast
    from r ans have "r = a (price_request (entry_id (catalog ! i)))" by auto
    with p enriched_by_nth [OF eb i] i show ?thesis
      by (simp add: priced_def make_product_def)
  qed
  with len show ?thesis by (simp add: list_eq_iff_nth_eq)
qed

lemma collect_stateless:
  "fst (collect_full_catalog (stateless a) s) =
     map_sum id (map snd) (merge_terms [] (map (found a) terms))"
proof -
  have "term_results (stateless a) terms s = map (found a) terms"
    by (simp add: term_results_def run_tasks_stateless_terms comp_def)
  moreover have "fst (collect_loop (stateless a) terms [] s)
      = merge_terms [] (term_results (stateless a) terms s)"
    by (rule collect_loop_merge)
  ultimately show ?thesis
    by (cases "collect_loop (stateless a) terms [] s")
       (auto simp: collect_full_catalog_def split: sum.splits)
qed

lemma map_of_graph: "t \<in> set ts \<Longrightarrow> map_of (map (\<lambda>t. (t, f t)) ts) t = Some (f t)"
  by (induction ts) auto

lemma collect_pool_stateless:
  assumes "fair p"
  shows "fst (collect_full_catalog_pool p (stateless a) s) =
     map_sum id (map snd) (merge_terms [] (map (found a) (done_order p terms)))"
proof -
  let ?results = "map (\<lambda>t. (t, found a t)) (run_order p terms)"
  have o: "set (run_order p terms) = set terms" "set (done_order p terms) = set terms"
    using fair_orders [OF assms distinct_terms] by blast+
  then have "set (done_order p terms) \<subseteq> fst ` set ?results" by force
  then have "as_completed ?results (done_order p terms)
      = map (\<lambda>t. (t, the (map_of ?results t))) (done_order p terms)"
    by (rule as_completed_all)
  also have "\<dots> = map (\<lambda>t. (t, found a t)) (done_order p terms)"
    using o by (simp add: map_of_graph)
  finally have "map snd (as_completed ?results (done_order p terms))
      = map (found a) (done_order p terms)"
    by (simp add: comp_def)
  moreover have "fst (run_tasks (fetch_products_for_term (stateless a)) (run_order p terms) s)
      = ?results"
    by (rule run_tasks_stateless_terms)
  ultimately show ?thesis
    by (auto simp: collect_full_catalog_pool_def pool_map_def
        fetch_products_for_term_blocking_def split: prod.splits sum.splits)
qed

lemma entry_key_inj: "entry_key e = entry_key e' \<Longrightarrow> e = e'"
  by (cases e, cases e') (simp add: entry_key_def)

lemma set_keys_of_concat:
  "set (keys_of (concat (map f ts))) = (\<Union>t\<in>set ts. set (keys_of (f t)))"
  by (induction ts) (auto simp: keys_of_def)

lemma merged_permuted:
  assumes "set ts = set ts'"
  shows "(merge_terms [] (map f ts) = Inl e) = (merge_terms [] (map f ts') = Inl e)"
    and "merge_terms [] (map f ts) = Inr c \<Longrightarrow> merge_terms [] (map f ts') = Inr c'
         \<Longrightarrow> mset (map snd c) = mset (map snd c')"
proof -
  have n: "(NotDict \<in> set (concat (map f ts))) = (NotDict \<in> set (concat (map f ts')))"
    using assms by simp
  then show "(merge_terms [] (map f ts) = Inl e) = (merge_terms [] (map f ts') = Inl e)"
    by (simp add: merge_terms_fold)
  assume c: "merge_terms [] (map f ts) = Inr c" and c': "merge_terms [] (map f ts') = Inr c'"
  let ?ks = "\<lambda>ts. filter valid_key (keys_of (concat (map f ts)))"
  have k: "map entry_key (map snd c) = first_seen (?ks ts)"
    "map entry_key (map snd c') = first_seen (?ks ts')"
    using c c' by (simp_all only: merged_catalog)
  have "set (?ks ts) = set (?ks ts')"
    using assms by (simp add: set_keys_of_concat)
  then have "set (map entry_key (map snd c)) = set (map entry_key (map snd c'))"
    by (simp only: k set_first_seen)
  then have "entry_key ` set (map snd c) = entry_key ` set (map snd c')"
    by (simp add: image_image)
  moreover have "inj entry_key" by (auto simp: inj_on_def dest: entry_key_inj)
  ultimately have s: "set (map snd c) = set (map snd c')"
    by (simp only: inj_image_eq_iff)
  have "distinct (map entry_key (map snd c))" "distinct (map entry_key (map snd c'))"
    by (simp_all only: k distinct_first_seen)
  then have "distinct (map snd c)" "distinct (map snd c')"
    by (metis distinct_map)+
  with s show "mset (map snd c) = mset (map snd c')"
    by (simp only: set_eq_iff_mset_eq_distinct)
qed

lemma persisted_stateless:
  "persisted (stateless a) s =
     map_sum id (\<lambda>c. sorted_products (map (priced a) (map snd c)))
       (merge_terms [] (map (found a) terms))"
proof -
  have e: "fst (enrich_with_prices (stateless a) s1 catalog) = map (priced a) catalog"
    for s1 :: "'a session" and catalog
    using enrichers_stateless [where run = "enrich_loop (stateless a) catalog Map.empty [] s1"
        and a = a and catalog = catalog and s = s1]
    by (simp add: enrich_with_prices_loop)
  show ?thesis
    using collect_stateless [of a s]
    by (cases "collect_full_catalog (stateless a) s";
        cases "merge_terms [] (map (found a) terms)")
       (auto simp: persisted_def e split: sum.splits)
qed

lemma persisted_pool_stateless:
  assumes "fair p"
  shows "persisted_pool p (stateless a) s =
     map_sum id (\<lambda>c. sorted_products (map (priced a) (map snd c)))
       (merge_terms [] (map (found a) (done_order p terms)))"
proof -
  have e: "fst (enrich_with_prices_pool p (stateless a) s1 catalog) = map (priced a) catalog"
    for s1 :: "'a session" and catalog
    using enrichers_stateless [where run = "enrich_pool p (stateless a) s1 catalog"
        and a = a and catalog = catalog and s = s1 and p = p] assms
    by (simp add: enrich_with_prices_pool_run)
  show ?thesis
    using collect_pool_stateless [OF assms, of a s]
    by (cases "collect_full_catalog_pool p (stateless a) s";
        cases "merge_terms [] (map (found a) (done_order p terms))")
       (auto simp: persisted_pool_def e split: sum.splits)
qed

lemma sorted_products_permuted:
  assumes "mset xs = mset ys"
  shows "mset (sorted_products xs) = mset (sorted_products ys)"
    and "map sort_key_of (sorted_products xs) = map sort_key_of (sorted_products ys)"
proof -
  show m: "mset (sorted_products xs) = mset (sorted_products ys)"
    using assms by (simp add: sorted_products_def)
  have "sorted (map sort_key_of (sorted_products xs))"
    "sorted (map sort_key_of (sorted_products ys))"
    by (simp_all add: sorted_products_def)
  moreover have "mset (map sort_key_of (sorted_products xs))
      = mset (map sort_key_of (sorted_products ys))"
    using m by simp
  ultimately show "map sort_key_of (sorted_products xs) = map sort_key_of (sorted_products ys)"
    by (metis properties_for_sort)
qed

lemma concat_map_only:
  assumes "\<forall>t\<in>set ts. \<not> P t \<longrightarrow> f t = []"
  shows "concat (map f ts) = concat (map f (filter P ts))"
  using assms by (induction ts) auto

lemma two_products_found:
  "found (two_products x) t =
     (if t = ''00'' then [first_item] else if t = ''01'' then [second_item x] else [])"
  by (simp add: found_def two_products_def term_request_def price_request_def items_of_def
      http_error_def)

lemma two_terms: "filter (\<lambda>t. t = ''00'' \<or> t = ''01'') terms = [''00'', ''01'']"
proof -
  let ?P = "\<lambda>t. t = ''00'' \<or> t = ''01''"
  let ?row = "\<lambda>a. filter ?P (map (\<lambda>b. [a, b]) alphabet)"
  let ?rest = "''123456789'' @ ascii_lowercase"
  have t: "terms = concat (map (\<lambda>a. map (\<lambda>b. [a, b]) alphabet) alphabet)"
    by (simp add: terms_def numeral_2_eq_2 comp_def)
  have a: "alphabet = CHR ''0'' # ?rest" by (simp add: alphabet_def)
  have row0: "?row CHR ''0'' = [''00'', ''01'']"
    by (simp add: alphabet_def ascii_lowercase_def)
  have rows: "?row a = []" if "a \<noteq> CHR ''0''" for a
    using that by (simp add: filter_empty_conv)
  have "\<forall>a\<in>set ?rest. a \<noteq> CHR ''0''" by (simp add: ascii_lowercase_def)
  then have "\<forall>a\<in>set ?rest. ?row a = []" using rows by blast
  then have rest: "concat (map ?row ?rest) = []" by (simp only: concat_eq_Nil_conv set_map) blast
  have "filter ?P terms = concat (map ?row alphabet)"
    by (simp add: t filter_concat comp_def)
  also have "\<dots> = ?row CHR ''0'' @ concat (map ?row ?rest)"
    by (subst a) (simp only: list.map concat.simps)
  finally show ?thesis by (simp only: row0 rest append_Nil2)
qed

lemma merge_terms_concat:
  "concat rs = concat rs' \<Longrightarrow> merge_terms [] rs = merge_terms [] rs'"
  by (simp add: merge_terms_fold)

lemma two_products_merged:
  "merge_terms [] (map (found (two_products x)) terms)
     = merge_terms [] [[first_item], [second_item x]]"
  "merge_terms [] (map (found (two_products x)) (done_order reversed terms))
     = merge_terms [] [[second_item x], [first_item]]"
proof -
  let ?P = "\<lambda>t. t = ''00'' \<or> t = ''01''"
  have e: "\<forall>t\<in>set ts. \<not> ?P t \<longrightarrow> found (two_products x) t = []" for ts
    by (simp add: two_products_found)
  have "concat (map (found (two_products x)) terms)
      = concat (map (found (two_products x)) (filter ?P terms))"
    using e by (rule concat_map_only)
  then have "concat (map (found (two_products x)) terms) = concat [[first_item], [second_item x]]"
    by (simp add: two_terms two_products_found)
  then show "merge_terms [] (map (found (two_products x)) terms)
     = merge_terms [] [[first_item], [second_item x]]"
    by (rule merge_terms_concat)
  have "concat (map (found (two_products x)) (rev terms))
      = concat (map (found (two_products x)) (filter ?P (rev terms)))"
    using e by (rule concat_map_only)
  also have "filter ?P (rev terms) = [''01'', ''00'']"
    by (simp only: rev_filter [symmetric] two_terms) simp
  also have "concat (map (found (two_products x)) [''01'', ''00''])
      = concat [[second_item x], [first_item]]"
    by (simp add: two_products_found)
  finally have "concat (map (found (two_products x)) (rev terms))
      = concat [[second_item x], [first_item]]" .
  then have "merge_terms [] (map (found (two_products x)) (rev terms))
     = merge_terms [] [[second_item x], [first_item]]"
    by (rule merge_terms_concat)
  then show "merge_terms [] (map (found (two_products x)) (done_order reversed terms))
     = merge_terms [] [[second_item x], [first_item]]"
    by (simp add: reversed_def)
qed

lemma twins_persisted:
  "persisted (stateless (two_products ''A / X'')) fresh_session =
     Inr [\<lparr>product_name = ''X'', product_code = ''A'', marketing_price = ''10''\<rparr>,
          \<lparr>product_name = ''X'', product_code = ''A'', marketing_price = ''20''\<rparr>]"
  "persisted_pool reversed (stateless (two_products ''A / X'')) fresh_session =
     Inr [\<lparr>product_name = ''X'', product_code = ''A'', marketing_price = ''20''\<rparr>,
          \<lparr>product_name = ''X'', product_code = ''A'', marketing_price = ''10''\<rparr>]"
  by (simp_all add: persisted_stateless persisted_pool_stateless [OF fair_reversed]
      two_products_merged first_item_def second_item_def item_key_def dict_get_def py_str_def
      strip_def is_space_def priced_def make_product_def two_products_def price_request_def
      term_request_def price_of_def parse_code_and_name_def parse_parts_def
      sorted_products_def sort_key_of_def less_eq_prod_def less_char_def)

lemma others_persisted:
  "persisted (stateless (two_products ''B / Y'')) fresh_session =
     Inr [\<lparr>product_name = ''X'', product_code = ''A'', marketing_price = ''10''\<rparr>,
          \<lparr>product_name = ''Y'', product_code = ''B'', marketing_price = ''20''\<rparr>]"
  "persisted_pool reversed (stateless (two_products ''B / Y'')) fresh_session =
     Inr [\<lparr>product_name = ''X'', product_code = ''A'', marketing_price = ''10''\<rparr>,
          \<lparr>product_name = ''Y'', product_code = ''B'', marketing_price = ''20''\<rparr>]"
  by (simp_all add: persisted_stateless persisted_pool_stateless [OF fair_reversed]
      two_products_merged first_item_def second_item_def item_key_def dict_get_def py_str_def
      strip_def is_space_def priced_def make_product_def two_products_def price_request_def
      term_request_def price_of_def parse_code_and_name_def parse_parts_def
      sorted_products_def sort_key_of_def less_eq_prod_def less_char_def)

text \<open>
  Claim C9, as the code has it. Against a server whose answers depend on the request
  alone, and for every fair schedule of the pool: the two programs fail together, with
  the same exception, or both produce a list to persist; the two lists hold the same
  records with the same multiplicities, both are sorted, and they have the same sequence
  of sort keys (name, code). They are the same list whenever no two different records of
  the list share name and code.
\<close>

theorem persisted_up_to_ties:
  assumes "fair p"
  shows "((persisted_pool p (stateless a) s = Inl e) = (persisted (stateless a) s = Inl e)) \<and>
         (persisted (stateless a) s = Inr A \<and> persisted_pool p (stateless a) s = Inr B \<longrightarrow>
            mset B = mset A \<and>
            sorted (map sort_key_of A) \<and>
            map sort_key_of B = map sort_key_of A \<and>
            ((\<forall>x\<in>set A. \<forall>y\<in>set A. sort_key_of x = sort_key_of y \<longrightarrow> x = y) \<longrightarrow> B = A))"
proof (intro conjI impI)
  have o: "set (done_order p terms) = set terms"
    using fair_orders [OF assms distinct_terms] by blast
  let ?m = "merge_terms [] (map (found a) terms)"
  let ?m' = "merge_terms [] (map (found a) (done_order p terms))"
  have "(?m' = Inl e) = (?m = Inl e)"
    using o by (rule merged_permuted)
  then show "(persisted_pool p (stateless a) s = Inl e) = (persisted (stateless a) s = Inl e)"
    unfolding persisted_stateless persisted_pool_stateless [OF assms]
    by (cases ?m; cases ?m') auto
  assume "persisted (stateless a) s = Inr A \<and> persisted_pool p (stateless a) s = Inr B"
  then obtain c c' where c: "?m = Inr c" "A = sorted_products (map (priced a) (map snd c))"
    and c': "?m' = Inr c'" "B = sorted_products (map (priced a) (map snd c'))"
    unfolding persisted_stateless persisted_pool_stateless [OF assms]
    by (cases ?m; cases ?m') auto
  from o c'(1) c(1) have "mset (map snd c') = mset (map snd c)"
    by (rule merged_permuted)
  then have m: "mset (map (priced a) (map snd c')) = mset (map (priced a) (map snd c))"
    by (metis mset_map)
  from sorted_products_permuted [OF m] c c'
  show B: "mset B = mset A" and k: "map sort_key_of B = map sort_key_of A"
    by simp_all
  show "sorted (map sort_key_of A)" by (simp add: c sorted_products_def)
  assume "\<forall>x\<in>set A. \<forall>y\<in>set A. sort_key_of x = sort_key_of y \<longrightarrow> x = y"
  moreover from B have "set B = set A" by (rule mset_eq_setD)
  ultimately have "inj_on sort_key_of (set B \<union> set A)" by (auto simp: inj_on_def)
  with k show "B = A" by (simp add: inj_on_map_eq_map)
qed

theorem persisted_up_to_ties_witness:
  "fair reversed \<and>
   persisted_pool reversed (stateless (two_products ''B / Y'')) fresh_session =
     persisted (stateless (two_products ''B / Y'')) fresh_session \<and>
   mset [\<lparr>product_name = ''X'', product_code = ''A'', marketing_price = ''20''\<rparr>,
         \<lparr>product_name = ''X'', product_code = ''A'', marketing_price = ''10''\<rparr>] =
   mset [\<lparr>product_name = ''X'', product_code = ''A'', marketing_price = ''10''\<rparr>,
         \<lparr>product_name = ''X'', product_code = ''A'', marketing_price = ''20''\<rparr>]"
proof -
  let ?A = "[\<lparr>product_name = ''X'', product_code = ''A'', marketing_price = ''10''\<rparr>,
          \<lparr>product_name = ''Y'', product_code = ''B'', marketing_price = ''20''\<rparr>]"
  let ?T = "[\<lparr>product_name = ''X'', product_code = ''A'', marketing_price = ''10''\<rparr>,
          \<lparr>product_name = ''X'', product_code = ''A'', marketing_price = ''20''\<rparr>]"
  let ?T' = "[\<lparr>product_name = ''X'', product_code = ''A'', marketing_price = ''20''\<rparr>,
          \<lparr>product_name = ''X'', product_code = ''A'', marketing_price = ''10''\<rparr>]"
  have i: "\<forall>x\<in>set ?A. \<forall>y\<in>set ?A. sort_key_of x = sort_key_of y \<longrightarrow> x = y"
    by (simp add: sort_key_of_def)
  from persisted_up_to_ties [OF fair_reversed, where a = "two_products ''B / Y''"
      and s = fresh_session and A = ?A and B = ?A] others_persisted i
  have 1: "?A = ?A" by blast
  from persisted_up_to_ties [OF fair_reversed, where a = "two_products ''A / X''"
      and s = fresh_session and A = ?T and B = ?T'] twins_persisted
  have 2: "mset ?T' = mset ?T" by blast
  from others_persisted have 3:
    "persisted_pool reversed (stateless (two_products ''B / Y'')) fresh_session =
     persisted (stateless (two_products ''B / Y'')) fresh_session"
    by simp
  from 2 3 fair_reversed show ?thesis by blast
qed

text \<open>
  Claim C9 as stated makes the two lists equal for every completion order. With two
  products of the same name and code and different prices, found by different terms, and
  a pool that completes its tasks in reverse order, the sequential program persists the
  price 10 first and the program with the pool the price 20 first.
\<close>

theorem persisted_order_counterexample:
  "fair reversed \<and>
   persisted (stateless (two_products ''A / X'')) fresh_session =
     Inr [\<lparr>product_name = ''X'', product_code = ''A'', marketing_price = ''10''\<rparr>,
          \<lparr>product_name = ''X'', product_code = ''A'', marketing_price = ''20''\<rparr>] \<and>
   persisted_pool reversed (stateless (two_products ''A / X'')) fresh_session =
     Inr [\<lparr>product_name = ''X'', product_code = ''A'', marketing_price = ''20''\<rparr>,
          \<lparr>product_name = ''X'', product_code = ''A'', marketing_price = ''10''\<rparr>] \<and>
   persisted_pool reversed (stateless (two_products ''A / X'')) fresh_session \<noteq>
     persisted (stateless (two_products ''A / X'')) fresh_session"
  using twins_persisted fair_reversed by simp

end
